theory Spec2Isabelle
  imports Main "HOL-Library.AList" "HOL-Library.Multiset"
begin

section \<open>The in-memory database of simple\_database.py\<close>

text \<open>
  Keys and values are Python strings. The code compares strings with each other and with
  ASCII literals and tests them for emptiness, nothing else, so a string is any list of
  characters that determines it: the bytes of its UTF-8 encoding (an ASCII string is the
  list of its characters). A Python \<open>dict\<close> keeps its entries in insertion
  order, so a dictionary is an association list: \<open>d[k] = v\<close> is \<open>AList.update k v d\<close>
  (in place when the key is there, at the end otherwise), \<open>d.pop(k, None)\<close> is
  \<open>AList.delete k d\<close>, \<open>d.get(k, None)\<close> is \<open>map_of d k\<close>, and a loop over
  \<open>d.items()\<close> is a recursion over the list. Two dictionaries are equal in Python when
  they hold the same entries, whatever the order: \<open>map_of d = map_of d'\<close>.

  A history entry is a value or \<open>None\<close>, the mark of a deleted key: \<open>string option\<close>.
  Every exception the methods can raise is a value of \<open>py_error\<close>.
\<close>

datatype py_error = AttributeError | IndexError | KeyError | TypeError

definition dict_get :: "('k \<times> 'v) list \<Rightarrow> 'k \<Rightarrow> 'v \<Rightarrow> 'v" where
  "dict_get d k dflt = (case map_of d k of None \<Rightarrow> dflt | Some v \<Rightarrow> v)"

subsection \<open>class Data\<close>

record 'v Data =
  data :: "(string \<times> 'v) list"
  values_freq :: "(string \<times> int) list"

definition Data_init :: "'v Data" where
  "Data_init = \<lparr>data = [], values_freq = []\<rparr>"

definition modify_freq :: "(string \<times> int) list \<Rightarrow> string option \<Rightarrow> int \<Rightarrow> (string \<times> int) list" where
  "modify_freq vf key_of_value num =
     (case key_of_value of
        None \<Rightarrow> vf
      | Some v \<Rightarrow>
          (let vf1 = AList.update v (dict_get vf v 0 + num) vf
           in if dict_get vf1 v 0 = 0 then AList.delete v vf1 else vf1))"

definition increase_freq :: "(string \<times> int) list \<Rightarrow> string option \<Rightarrow> (string \<times> int) list" where
  "increase_freq vf key_of_value = modify_freq vf key_of_value 1"

definition decrease_freq :: "(string \<times> int) list \<Rightarrow> string option \<Rightarrow> (string \<times> int) list" where
  "decrease_freq vf key_of_value = modify_freq vf key_of_value (- 1)"

subsection \<open>class TransactionHandler\<close>

text \<open>
  \<open>transactions\<close> is the key - value list structure with its frequencies,
  \<open>transactions_opened\<close> the stack of opened transactions, the most recent last. A
  transaction is the Python \<open>set\<close> of the keys it touched: here the list of its
  members without repetition, in the order in which the loop of \<open>rollback\<close> visits them.
  The handler's attribute \<open>database\<close> is the \<open>Data\<close> object of the \<open>Database\<close>
  itself; the two methods that use it take it as an argument, and \<open>commit\<close> returns it.
\<close>

record TransactionHandler =
  transactions :: "string option list Data"
  transactions_opened :: "string list list"

definition TransactionHandler_init :: TransactionHandler where
  "TransactionHandler_init = \<lparr>transactions = Data_init, transactions_opened = []\<rparr>"

definition get_active_size :: "TransactionHandler \<Rightarrow> nat" where
  "get_active_size th = length (transactions_opened th)"

definition is_active :: "TransactionHandler \<Rightarrow> bool" where
  "is_active th = (get_active_size th > 0)"

definition is_one_active :: "TransactionHandler \<Rightarrow> bool" where
  "is_one_active th = (get_active_size th = 1)"

definition clear :: "TransactionHandler \<Rightarrow> TransactionHandler" where
  "clear th = th\<lparr>transactions := Data_init, transactions_opened := []\<rparr>"

definition TransactionHandler_get :: "TransactionHandler \<Rightarrow> string \<Rightarrow> string option \<times> bool" where
  "TransactionHandler_get th key =
     (let key_list = dict_get (data (transactions th)) key []
      in if key_list \<noteq> [] then (last key_list, True) else (None, False))"

text \<open>
  \<open>key_list[-1] = x\<close> raises \<open>IndexError\<close> on an empty list; otherwise it replaces the
  last element of the list that the dictionary holds. \<open>latest_transaction.add(key)\<close>
  is reached only when the key is not a member.
\<close>

definition TransactionHandler_set ::
    "TransactionHandler \<Rightarrow> string \<Rightarrow> string option \<Rightarrow> string \<Rightarrow> py_error + TransactionHandler" where
  "TransactionHandler_set th key old_value new_value =
     (if is_active th then
        (let latest_transaction = last (transactions_opened th);
             d0 = data (transactions th);
             d1 = (if map_of d0 key = None then AList.update key [] d0 else d0);
             key_list = dict_get d1 key [];
             vf = increase_freq (decrease_freq (values_freq (transactions th)) old_value)
                    (Some new_value)
         in if key \<in> set latest_transaction then
              (if key_list = [] then Inl IndexError
               else Inr (th\<lparr>transactions :=
                      \<lparr>data = AList.update key (butlast key_list @ [Some new_value]) d1,
                       values_freq = vf\<rparr>\<rparr>))
            else
              Inr (th\<lparr>transactions :=
                      \<lparr>data = AList.update key (key_list @ [Some new_value]) d1,
                       values_freq = vf\<rparr>,
                    transactions_opened :=
                      butlast (transactions_opened th) @ [latest_transaction @ [key]]\<rparr>))
      else Inr th)"

definition TransactionHandler_unset ::
    "TransactionHandler \<Rightarrow> string \<Rightarrow> string option \<Rightarrow> py_error + TransactionHandler" where
  "TransactionHandler_unset th key old_value =
     (if is_active th \<and> old_value \<noteq> None then
        (let latest_transaction = last (transactions_opened th);
             d1 = AList.update key (dict_get (data (transactions th)) key [])
                    (data (transactions th));
             key_list = dict_get d1 key [];
             vf = decrease_freq (values_freq (transactions th)) old_value
         in if key \<in> set latest_transaction then
              (if key_list = [] then Inl IndexError
               else Inr (th\<lparr>transactions :=
                      \<lparr>data = AList.update key (butlast key_list @ [None]) d1,
                       values_freq = vf\<rparr>\<rparr>))
            else
              Inr (th\<lparr>transactions :=
                      \<lparr>data = AList.update key (key_list @ [None]) d1,
                       values_freq = vf\<rparr>,
                    transactions_opened :=
                      butlast (transactions_opened th) @ [latest_transaction @ [key]]\<rparr>))
      else Inr th)"

definition TransactionHandler_num_equal_to :: "TransactionHandler \<Rightarrow> string \<Rightarrow> int" where
  "TransactionHandler_num_equal_to th v = dict_get (values_freq (transactions th)) v 0"

definition TransactionHandler_begin :: "TransactionHandler \<Rightarrow> TransactionHandler" where
  "TransactionHandler_begin th = th\<lparr>transactions_opened := transactions_opened th @ [[]]\<rparr>"

text \<open>
  The body of the loop of \<open>rollback\<close> for one key of the popped transaction:
  \<open>self.transactions.data[modified_key]\<close> raises \<open>KeyError\<close> for a missing key, and
  \<open>key_list.pop()\<close> raises \<open>IndexError\<close> on an empty list.
\<close>

definition rollback_key ::
    "string Data \<Rightarrow> string \<Rightarrow> TransactionHandler \<Rightarrow> py_error + TransactionHandler" where
  "rollback_key db modified_key th =
     (case map_of (data (transactions th)) modified_key of
        None \<Rightarrow> Inl KeyError
      | Some key_list \<Rightarrow>
          if key_list = [] then Inl IndexError
          else
            (let modified_value = last key_list;
                 popped = butlast key_list;
                 th1 = th\<lparr>transactions := (transactions th)
                         \<lparr>data := AList.update modified_key popped (data (transactions th))\<rparr>\<rparr>;
                 (value, found) = TransactionHandler_get th1 modified_key;
                 previous_value = (if \<not> found then map_of (data db) modified_key else value);
                 vf = decrease_freq
                        (increase_freq (values_freq (transactions th1)) previous_value)
                        modified_value;
                 d2 = (if popped = [] then AList.delete modified_key (data (transactions th1))
                       else data (transactions th1))
             in Inr (th1\<lparr>transactions := \<lparr>data = d2, values_freq = vf\<rparr>\<rparr>)))"

fun rollback_loop ::
    "string Data \<Rightarrow> string list \<Rightarrow> TransactionHandler \<Rightarrow> py_error + TransactionHandler" where
  "rollback_loop db [] th = Inr th"
| "rollback_loop db (modified_key # keys) th =
     (case rollback_key db modified_key th of
        Inl e \<Rightarrow> Inl e
      | Inr th' \<Rightarrow> rollback_loop db keys th')"

definition TransactionHandler_rollback ::
    "TransactionHandler \<Rightarrow> string Data \<Rightarrow> py_error + TransactionHandler" where
  "TransactionHandler_rollback th db =
     (if is_active th then
        (if is_one_active th then Inr (clear th)
         else
           (let latest_transaction = last (transactions_opened th)
            in rollback_loop db latest_transaction
                 (th\<lparr>transactions_opened := butlast (transactions_opened th)\<rparr>)))
      else Inr th)"

text \<open>
  The first loop of \<open>commit\<close>, over the items of the transaction data. The test
  \<open>if value:\<close> is Python's truth test: \<open>None\<close> and the empty string are both false.
\<close>

fun commit_data ::
    "(string \<times> string option list) list \<Rightarrow> (string \<times> string) list \<Rightarrow>
       py_error + (string \<times> string) list" where
  "commit_data [] d = Inr d"
| "commit_data ((key, key_list) # items) d =
     (if key_list = [] then Inl IndexError
      else
        (case last key_list of
           None \<Rightarrow> commit_data items (AList.delete key d)
         | Some v \<Rightarrow>
             if v \<noteq> [] then commit_data items (AList.update key v d)
             else commit_data items (AList.delete key d)))"

text \<open>The second loop of \<open>commit\<close>, over the items of the transaction frequencies.\<close>

fun commit_freq :: "(string \<times> int) list \<Rightarrow> (string \<times> int) list \<Rightarrow> (string \<times> int) list" where
  "commit_freq [] vf = vf"
| "commit_freq ((v, freq) # items) vf = commit_freq items (modify_freq vf (Some v) freq)"

definition TransactionHandler_commit ::
    "TransactionHandler \<Rightarrow> string Data \<Rightarrow> py_error + (TransactionHandler \<times> string Data)" where
  "TransactionHandler_commit th db =
     (if is_active th then
        (case commit_data (data (transactions th)) (data db) of
           Inl e \<Rightarrow> Inl e
         | Inr d \<Rightarrow>
             Inr (clear th,
                  \<lparr>data = d,
                   values_freq = commit_freq (values_freq (transactions th)) (values_freq db)\<rparr>))
      else Inr (th, db))"

subsection \<open>class Database\<close>

record Database =
  database :: "string Data"
  transaction_handler :: TransactionHandler

definition Database_init :: Database where
  "Database_init = \<lparr>database = Data_init, transaction_handler = TransactionHandler_init\<rparr>"

definition is_transaction_active :: "Database \<Rightarrow> bool" where
  "is_transaction_active db = is_active (transaction_handler db)"

definition Database_get :: "Database \<Rightarrow> string \<Rightarrow> string option" where
  "Database_get db key =
     (if is_transaction_active db then
        (let (value, found) = TransactionHandler_get (transaction_handler db) key
         in if found then value else map_of (data (database db)) key)
      else map_of (data (database db)) key)"

definition Database_set :: "Database \<Rightarrow> string \<Rightarrow> string \<Rightarrow> py_error + Database" where
  "Database_set db key new_value =
     (let old_value = Database_get db key
      in if old_value \<noteq> Some new_value then
           (if is_transaction_active db then
              (case TransactionHandler_set (transaction_handler db) key old_value new_value of
                 Inl e \<Rightarrow> Inl e
               | Inr th \<Rightarrow> Inr (db\<lparr>transaction_handler := th\<rparr>))
            else
              Inr (db\<lparr>database :=
                     \<lparr>data = AList.update key new_value (data (database db)),
                      values_freq =
                        increase_freq (decrease_freq (values_freq (database db)) old_value)
                          (Some new_value)\<rparr>\<rparr>))
         else Inr db)"

text \<open>
  Without a transaction, \<open>unset\<close> evaluates \<open>self.data\<close>: a \<open>Database\<close> has no such
  attribute (its fields are \<open>database\<close> and \<open>transaction_handler\<close>), so the call raises
  \<open>AttributeError\<close> before anything is written.
\<close>

definition Database_unset :: "Database \<Rightarrow> string \<Rightarrow> py_error + Database" where
  "Database_unset db key =
     (let old_value = Database_get db key
      in if is_transaction_active db then
           (case TransactionHandler_unset (transaction_handler db) key old_value of
              Inl e \<Rightarrow> Inl e
            | Inr th \<Rightarrow> Inr (db\<lparr>transaction_handler := th\<rparr>))
         else Inl AttributeError)"

definition Database_num_equal_to :: "Database \<Rightarrow> string \<Rightarrow> int" where
  "Database_num_equal_to db v =
     dict_get (values_freq (database db)) v 0
       + TransactionHandler_num_equal_to (transaction_handler db) v"

definition Database_begin :: "Database \<Rightarrow> Database" where
  "Database_begin db = db\<lparr>transaction_handler := TransactionHandler_begin (transaction_handler db)\<rparr>"

definition Database_rollback :: "Database \<Rightarrow> py_error + (bool \<times> Database)" where
  "Database_rollback db =
     (if is_transaction_active db then
        (case TransactionHandler_rollback (transaction_handler db) (database db) of
           Inl e \<Rightarrow> Inl e
         | Inr th \<Rightarrow> Inr (True, db\<lparr>transaction_handler := th\<rparr>))
      else Inr (False, db))"

definition Database_commit :: "Database \<Rightarrow> py_error + (bool \<times> Database)" where
  "Database_commit db =
     (if is_transaction_active db then
        (case TransactionHandler_commit (transaction_handler db) (database db) of
           Inl e \<Rightarrow> Inl e
         | Inr (th, d) \<Rightarrow> Inr (True, \<lparr>database = d, transaction_handler = th\<rparr>))
      else Inr (False, db))"

subsection \<open>class DBConsole\<close>

text \<open>
  The console holds a \<open>Database\<close> and two constant tables. \<open>input()\<close> returns the next
  line without its newline, or raises \<open>EOFError\<close> at the end of the input: the line is
  a \<open>string option\<close>. \<open>print\<close> appends to the printed output, a list of
  \<open>printed\<close> items (a string, or the integer of \<open>NUMEQUALTO\<close>). A method called
  with the wrong number of arguments raises \<open>TypeError\<close>.

  \<open>str.split\<close> and \<open>str.upper\<close> are functions of Python, not of the repository:
  \<open>read_from_stdin\<close> and \<open>listen\<close> take them as the arguments \<open>split\<close> and
  \<open>upper\<close>, and what is proved of the console is proved for every pair of functions,
  so for those of Python on every line, whatever white space and letters it holds.

  To run the console on a given line the two functions are needed on that line only.
  \<open>ascii_split\<close> and \<open>ascii_upper\<close> are \<open>str.split()\<close> and \<open>str.upper()\<close> on the
  ASCII lines (\<open>is_ascii\<close> of every character): among the ASCII characters the white
  space of \<open>str.split()\<close> is 9 to 13 and 28 to 32, and \<open>str.upper()\<close> maps \<open>a\<close> ..
  \<open>z\<close> to \<open>A\<close> .. \<open>Z\<close> and nothing else. They are used on ASCII lines only, and
  say nothing of the other lines.
\<close>

datatype printed = Text string | Number int

definition is_ascii :: "char \<Rightarrow> bool" where
  "is_ascii c = ((of_char c :: nat) < 128)"

definition is_ascii_space :: "char \<Rightarrow> bool" where
  "is_ascii_space c = ((of_char c :: nat) \<in> {9, 10, 11, 12, 13, 28, 29, 30, 31, 32})"

fun ascii_split_from :: "string \<Rightarrow> string \<Rightarrow> string list" where
  "ascii_split_from field [] = (if field = [] then [] else [field])"
| "ascii_split_from field (c # cs) =
     (if is_ascii_space c
      then (if field = [] then ascii_split_from [] cs else field # ascii_split_from [] cs)
      else ascii_split_from (field @ [c]) cs)"

definition ascii_split :: "string \<Rightarrow> string list" where
  "ascii_split line = ascii_split_from [] line"

definition ascii_upper_char :: "char \<Rightarrow> char" where
  "ascii_upper_char c =
     (if 97 \<le> (of_char c :: nat) \<and> (of_char c :: nat) \<le> 122
      then char_of ((of_char c :: nat) - 32) else c)"

definition ascii_upper :: "string \<Rightarrow> string" where
  "ascii_upper s = map ascii_upper_char s"

definition end_operation :: "string set" where
  "end_operation = {''END''}"

definition valid_operations_arguments :: "(string \<times> nat) set" where
  "valid_operations_arguments =
     {(''GET'', 1), (''SET'', 2), (''UNSET'', 1), (''NUMEQUALTO'', 1),
      (''BEGIN'', 0), (''ROLLBACK'', 0), (''COMMIT'', 0)}"

text \<open>
  \<open>read_from_stdin\<close> returns whether the console goes on listening, with what it
  printed and the database after the command. An exception of a database method is not
  caught (only \<open>EOFError\<close> is) and leaves the function.
\<close>

definition read_from_stdin ::
    "(string \<Rightarrow> string list) \<Rightarrow> (string \<Rightarrow> string) \<Rightarrow> Database \<Rightarrow> string option \<Rightarrow>
       py_error + (bool \<times> printed list \<times> Database)" where
  "read_from_stdin split upper db inp =
     (case inp of
        None \<Rightarrow> Inr (False, [], db)
      | Some line \<Rightarrow>
          (let fields = split line
           in if fields \<noteq> [] then
                (let method_name = upper (hd fields);
                     arguments = tl fields;
                     arguments_count = length arguments
                 in if method_name \<in> end_operation then Inr (False, [], db)
                    else if (method_name, arguments_count) \<in> valid_operations_arguments then
                      (if method_name = ''GET'' then
                         (case arguments of
                            [key] \<Rightarrow>
                              (case Database_get db key of
                                 None \<Rightarrow> Inr (True, [Text ''NULL''], db)
                               | Some v \<Rightarrow>
                                   Inr (True, [Text (if v = [] then ''NULL'' else v)], db))
                          | _ \<Rightarrow> Inl TypeError)
                       else if method_name = ''SET'' then
                         (case arguments of
                            [key, v] \<Rightarrow>
                              (case Database_set db key v of
                                 Inl e \<Rightarrow> Inl e
                               | Inr db' \<Rightarrow> Inr (True, [], db'))
                          | _ \<Rightarrow> Inl TypeError)
                       else if method_name = ''UNSET'' then
                         (case arguments of
                            [key] \<Rightarrow>
                              (case Database_unset db key of
                                 Inl e \<Rightarrow> Inl e
                               | Inr db' \<Rightarrow> Inr (True, [], db'))
                          | _ \<Rightarrow> Inl TypeError)
                       else if method_name = ''NUMEQUALTO'' then
                         (case arguments of
                            [v] \<Rightarrow> Inr (True, [Number (Database_num_equal_to db v)], db)
                          | _ \<Rightarrow> Inl TypeError)
                       else if method_name = ''BEGIN'' then Inr (True, [], Database_begin db)
                       else if method_name = ''ROLLBACK'' then
                         (case Database_rollback db of
                            Inl e \<Rightarrow> Inl e
                          | Inr (output, db') \<Rightarrow>
                              Inr (True, if \<not> output then [Text ''NO TRANSACTION''] else [], db'))
                       else if method_name = ''COMMIT'' then
                         (case Database_commit db of
                            Inl e \<Rightarrow> Inl e
                          | Inr (output, db') \<Rightarrow>
                              Inr (True, if \<not> output then [Text ''NO TRANSACTION''] else [], db'))
                       else Inr (True, [], db))
                    else Inr (True, [Text ''Invalid method or number of arguments''], db))
              else Inr (True, [], db)))"

text \<open>
  \<open>listen\<close> calls \<open>read_from_stdin\<close> until it returns \<open>False\<close>; after the last line
  of the input, \<open>input()\<close> raises \<open>EOFError\<close>.
\<close>

fun listen ::
    "(string \<Rightarrow> string list) \<Rightarrow> (string \<Rightarrow> string) \<Rightarrow> Database \<Rightarrow> string list \<Rightarrow>
       py_error + (printed list \<times> Database)" where
  "listen split upper db [] =
     (case read_from_stdin split upper db None of
        Inl e \<Rightarrow> Inl e
      | Inr (active, out, db') \<Rightarrow> Inr (out, db'))"
| "listen split upper db (line # lines) =
     (case read_from_stdin split upper db (Some line) of
        Inl e \<Rightarrow> Inl e
      | Inr (active, out, db') \<Rightarrow>
          if active then
            (case listen split upper db' lines of
               Inl e \<Rightarrow> Inl e
             | Inr (out', db'') \<Rightarrow> Inr (out @ out', db''))
          else Inr (out, db'))"

subsection \<open>Sequences of calls\<close>

text \<open>
  A client of the class calls its methods one after the other, as the command loop of
  \<open>test_can_commit\<close> in test.py does (\<open>getattr(self.database, method)(*arguments)\<close>).
  \<open>run\<close> threads the database through such a sequence and stops at the first
  exception.
\<close>

datatype operation =
  GET string | SET string string | UNSET string | NUMEQUALTO string | BEGIN | ROLLBACK | COMMIT

fun apply_operation :: "operation \<Rightarrow> Database \<Rightarrow> py_error + Database" where
  "apply_operation (GET key) db = Inr db"
| "apply_operation (SET key v) db = Database_set db key v"
| "apply_operation (UNSET key) db = Database_unset db key"
| "apply_operation (NUMEQUALTO v) db = Inr db"
| "apply_operation BEGIN db = Inr (Database_begin db)"
| "apply_operation ROLLBACK db =
     (case Database_rollback db of Inl e \<Rightarrow> Inl e | Inr (output, db') \<Rightarrow> Inr db')"
| "apply_operation COMMIT db =
     (case Database_commit db of Inl e \<Rightarrow> Inl e | Inr (output, db') \<Rightarrow> Inr db')"

fun run :: "operation list \<Rightarrow> Database \<Rightarrow> py_error + Database" where
  "run [] db = Inr db"
| "run (op # ops) db =
     (case apply_operation op db of Inl e \<Rightarrow> Inl e | Inr db' \<Rightarrow> run ops db')"

text \<open>
  The order in which a Python \<open>set\<close> is visited is not specified, so a transaction is
  any list of its members: \<open>reordered db db'\<close> when the two states differ at most in
  the order of the members of their transactions. The states reachable by calls that
  satisfy \<open>allowed\<close> are those that the calls lead to from \<open>Database()\<close>, the
  transactions taken in any order; every state the program can be in is \<open>reachable\<close>.
  (A call that raises leaves the database as it was, see \<open>Database_unset\<close>.)
\<close>

definition reordered :: "Database \<Rightarrow> Database \<Rightarrow> bool" where
  "reordered db db' \<longleftrightarrow>
     database db' = database db
     \<and> transactions (transaction_handler db') = transactions (transaction_handler db)
     \<and> list_all2 (\<lambda>t t'. mset t' = mset t)
           (transactions_opened (transaction_handler db))
           (transactions_opened (transaction_handler db'))"

inductive reachable_by :: "(operation \<Rightarrow> bool) \<Rightarrow> Database \<Rightarrow> bool"
  for allowed :: "operation \<Rightarrow> bool" where
  new: "reachable_by allowed Database_init"
| call: "reachable_by allowed db \<Longrightarrow> allowed op \<Longrightarrow> apply_operation op db = Inr db'
           \<Longrightarrow> reachable_by allowed db'"
| order: "reachable_by allowed db \<Longrightarrow> reordered db db' \<Longrightarrow> reachable_by allowed db'"

definition reachable :: "Database \<Rightarrow> bool" where
  "reachable db = reachable_by (\<lambda>op. True) db"

fun is_data_operation :: "operation \<Rightarrow> bool" where
  "is_data_operation (GET key) = True"
| "is_data_operation (SET key v) = True"
| "is_data_operation (UNSET key) = True"
| "is_data_operation (NUMEQUALTO v) = True"
| "is_data_operation BEGIN = False"
| "is_data_operation ROLLBACK = False"
| "is_data_operation COMMIT = False"

subsection \<open>What the properties speak of\<close>

text \<open>
  The aggregate history of a key is its list in the transaction data, empty when the key
  has no entry; the opened transactions are the layers. The keys whose current value is
  \<open>v\<close> are counted among the keys of the two dictionaries (\<open>count_equal_to\<close>), which
  is the number of all keys with that value (\<open>num_keys\<close> of the merged view
  \<open>Database_get db\<close>, lemma \<open>count_equal_to_num_keys\<close> below).
\<close>

definition history :: "TransactionHandler \<Rightarrow> string \<Rightarrow> string option list" where
  "history th key = dict_get (data (transactions th)) key []"

definition all_keys :: "Database \<Rightarrow> string list" where
  "all_keys db =
     remdups (map fst (data (database db))
              @ map fst (data (transactions (transaction_handler db))))"

definition count_equal_to :: "Database \<Rightarrow> string \<Rightarrow> int" where
  "count_equal_to db v = int (length (filter (\<lambda>k. Database_get db k = Some v) (all_keys db)))"

definition num_keys :: "(string \<Rightarrow> string option) \<Rightarrow> string \<Rightarrow> int" where
  "num_keys f v = int (card {k. f k = Some v})"

subsection \<open>Invariants of the reachable states\<close>

text \<open>
  \<open>touching th key\<close> is the number of opened transactions whose set holds the key.
  \<open>handler_inv\<close> is the shape of the handler in every reachable state: the two
  dictionaries have each key once, no history is an empty list, no transaction holds a
  key twice, the history of a key has one entry for each transaction that touched it,
  and nothing is recorded when no transaction is opened. During the loop of
  \<open>rollback\<close> the keys still to be visited (\<open>pending\<close>) have one more entry.
  \<open>merged\<close> is the merged view read from the history, \<open>delta_inv\<close> says that the
  frequencies of the handler are those of the merged view minus those of the store.
  \<open>record_entry\<close> and \<open>pop_entry\<close> are the states that the handler's \<open>set\<close>,
  \<open>unset\<close> and the body of the loop of \<open>rollback\<close> return when the invariant holds.
  \<open>opened_above db0 db\<close>: \<open>db\<close> has one more transaction than \<open>db0\<close>, which holds
  one more history entry for each key it touched, over the same store.
\<close>

definition touching :: "TransactionHandler \<Rightarrow> string \<Rightarrow> nat" where
  "touching th key = length (filter (\<lambda>t. key \<in> set t) (transactions_opened th))"

definition handler_inv :: "string list \<Rightarrow> TransactionHandler \<Rightarrow> bool" where
  "handler_inv pending th \<longleftrightarrow>
     distinct (map fst (data (transactions th)))
     \<and> distinct (map fst (values_freq (transactions th)))
     \<and> (\<forall>key. map_of (data (transactions th)) key \<noteq> Some [])
     \<and> (\<forall>t \<in> set (transactions_opened th). distinct t)
     \<and> (\<forall>key. length (history th key)
                = touching th key + (if key \<in> set pending then 1 else 0))
     \<and> (transactions_opened th = [] \<longrightarrow> transactions th = Data_init)"

definition merged :: "string Data \<Rightarrow> TransactionHandler \<Rightarrow> string \<Rightarrow> string option" where
  "merged store th key =
     (if history th key = [] then map_of (data store) key else last (history th key))"

definition delta_inv :: "string Data \<Rightarrow> TransactionHandler \<Rightarrow> bool" where
  "delta_inv store th \<longleftrightarrow>
     (\<forall>v. dict_get (values_freq (transactions th)) v 0
            = num_keys (merged store th) v - num_keys (map_of (data store)) v)"

definition db_inv :: "Database \<Rightarrow> bool" where
  "db_inv db \<longleftrightarrow>
     handler_inv [] (transaction_handler db) \<and> delta_inv (database db) (transaction_handler db)"

definition record_entry ::
    "TransactionHandler \<Rightarrow> string \<Rightarrow> string option \<Rightarrow> (string \<times> int) list \<Rightarrow> TransactionHandler" where
  "record_entry th key e vf =
     (let top = last (transactions_opened th)
      in th\<lparr>transactions :=
              \<lparr>data = AList.update key
                        ((if key \<in> set top then butlast (history th key) else history th key) @ [e])
                        (data (transactions th)),
               values_freq = vf\<rparr>,
            transactions_opened :=
              butlast (transactions_opened th) @ [if key \<in> set top then top else top @ [key]]\<rparr>)"

definition pop_entry :: "string Data \<Rightarrow> TransactionHandler \<Rightarrow> string \<Rightarrow> TransactionHandler" where
  "pop_entry store th key =
     (let l = history th key;
          previous_value = (if butlast l = [] then map_of (data store) key else last (butlast l))
      in th\<lparr>transactions :=
              \<lparr>data = (if butlast l = [] then AList.delete key (data (transactions th))
                       else AList.update key (butlast l) (data (transactions th))),
               values_freq =
                 decrease_freq (increase_freq (values_freq (transactions th)) previous_value)
                   (last l)\<rparr>\<rparr>)"

definition opened_above :: "Database \<Rightarrow> Database \<Rightarrow> bool" where
  "opened_above db0 db \<longleftrightarrow>
     db_inv db \<and> database db = database db0
     \<and> (\<exists>latest.
           transactions_opened (transaction_handler db)
             = transactions_opened (transaction_handler db0) @ [latest]
           \<and> (\<forall>k. if k \<in> set latest
                    then history (transaction_handler db) k \<noteq> []
                         \<and> butlast (history (transaction_handler db) k)
                             = history (transaction_handler db0) k
                    else history (transaction_handler db) k
                           = history (transaction_handler db0) k))"

text \<open>The state after \<open>SET a 1\<close>, \<open>BEGIN\<close>, \<open>SET a 2\<close> on a new database.\<close>

definition example_db :: Database where
  "example_db =
     \<lparr>database = \<lparr>data = [(''a'', ''1'')], values_freq = [(''1'', 1)]\<rparr>,
      transaction_handler =
        \<lparr>transactions =
           \<lparr>data = [(''a'', [Some ''2''])], values_freq = [(''1'', - 1), (''2'', 1)]\<rparr>,
         transactions_opened = [[''a'']]\<rparr>\<rparr>"

subsection \<open>Commit and the empty string\<close>

text \<open>
  \<open>committed_value e\<close> is what the first loop of \<open>commit\<close> leaves in the store for a
  key whose last history entry is \<open>e\<close>: nothing for \<open>None\<close> and for the empty string,
  the value otherwise. \<open>sets_no_empty_value\<close> and \<open>plain_operation\<close> select the
  calls for which the general statements on the frequencies and on commit are proved:
  no \<open>set\<close> of the empty string; respectively get, such a set, and numEqualTo only.
  \<open>store_inv\<close> says that the frequencies of the store count its keys,
  \<open>history_truthy\<close> that no history holds the empty string. \<open>flattens d t\<close> relates
  a database \<open>d\<close> without transaction to a database \<open>t\<close> inside transactions that
  shows the same values, its frequencies being those of \<open>d\<close> once added up.
  \<open>no_zero\<close>: a frequency table keeps no entry with count 0.
\<close>

definition committed_value :: "string option \<Rightarrow> string option" where
  "committed_value e = (case e of None \<Rightarrow> None | Some v \<Rightarrow> if v \<noteq> [] then Some v else None)"

fun sets_no_empty_value :: "operation \<Rightarrow> bool" where
  "sets_no_empty_value (SET key v) = (v \<noteq> [])"
| "sets_no_empty_value op = True"

definition store_inv :: "string Data \<Rightarrow> bool" where
  "store_inv store \<longleftrightarrow>
     (\<forall>v. dict_get (values_freq store) v 0 = num_keys (map_of (data store)) v)"

definition history_truthy :: "TransactionHandler \<Rightarrow> bool" where
  "history_truthy th \<longleftrightarrow> (\<forall>key. Some [] \<notin> set (history th key))"

definition full_inv :: "Database \<Rightarrow> bool" where
  "full_inv db \<longleftrightarrow>
     db_inv db \<and> store_inv (database db) \<and> history_truthy (transaction_handler db)"

fun plain_operation :: "operation \<Rightarrow> bool" where
  "plain_operation (GET key) = True"
| "plain_operation (SET key v) = (v \<noteq> [])"
| "plain_operation (NUMEQUALTO v) = True"
| "plain_operation op = False"

definition flattens :: "Database \<Rightarrow> Database \<Rightarrow> bool" where
  "flattens d t \<longleftrightarrow>
     \<not> is_transaction_active d \<and> is_transaction_active t
     \<and> db_inv t \<and> history_truthy (transaction_handler t)
     \<and> (\<forall>key. Database_get t key = Database_get d key)
     \<and> (\<forall>v. dict_get (values_freq (database d)) v 0
              = dict_get (values_freq (database t)) v 0
                + dict_get (values_freq (transactions (transaction_handler t))) v 0)"

definition no_zero :: "(string \<times> int) list \<Rightarrow> bool" where
  "no_zero vf \<longleftrightarrow> (\<forall>v. map_of vf v \<noteq> Some 0)"

section \<open>Properties\<close>

subsection \<open>The tests of the repository\<close>

text \<open>
  The model returns what test.py expects of the code (\<open>test_set_value_check_data\<close>,
  \<open>test_can_rollback_\<close>, \<open>test_can_commit\<close>), and the console prints what the
  command list documents for nested transactions.
\<close>

lemma test_set_value_check_data:
  "run [SET ''a'' ''1''] Database_init =
     Inr \<lparr>database = \<lparr>data = [(''a'', ''1'')], values_freq = [(''1'', 1)]\<rparr>,
          transaction_handler = TransactionHandler_init\<rparr>"
  by code_simp

lemma test_can_rollback:
  "run [SET ''a'' ''1'', SET ''z'' ''30'', BEGIN, SET ''bb'' ''9999'', SET ''cc'' ''9999'']
     Database_init =
     Inr \<lparr>database =
            \<lparr>data = [(''a'', ''1''), (''z'', ''30'')],
             values_freq = [(''1'', 1), (''30'', 1)]\<rparr>,
          transaction_handler =
            \<lparr>transactions =
               \<lparr>data = [(''bb'', [Some ''9999'']), (''cc'', [Some ''9999''])],
                values_freq = [(''9999'', 2)]\<rparr>,
             transactions_opened = [[''bb'', ''cc'']]\<rparr>\<rparr>"
  "run [SET ''a'' ''1'', SET ''z'' ''30'', BEGIN, SET ''bb'' ''9999'', SET ''cc'' ''9999'',
        ROLLBACK] Database_init =
     Inr \<lparr>database =
            \<lparr>data = [(''a'', ''1''), (''z'', ''30'')],
             values_freq = [(''1'', 1), (''30'', 1)]\<rparr>,
          transaction_handler = TransactionHandler_init\<rparr>"
  by code_simp+

lemma test_can_commit:
  "run [SET ''a'' ''0'', SET ''b'' ''0'', BEGIN, NUMEQUALTO ''0'', UNSET ''f'', SET ''a'' ''10'',
        UNSET ''b'', SET ''z'' ''100'', COMMIT] Database_init =
     Inr \<lparr>database =
            \<lparr>data = [(''a'', ''10''), (''z'', ''100'')],
             values_freq = [(''10'', 1), (''100'', 1)]\<rparr>,
          transaction_handler = TransactionHandler_init\<rparr>"
  by code_simp

lemma console_nested_transactions:
  "map_sum id fst
     (listen ascii_split ascii_upper Database_init
        [''BEGIN'', ''SET a 10'', ''BEGIN'', ''SET a 20'', ''ROLLBACK'', ''GET a'',
         ''ROLLBACK'', ''GET a'', ''ROLLBACK'', ''NUMEQUALTO 10'', ''END'', ''GET a''])
     = Inr [Text ''10'', Text ''NULL'', Text ''NO TRANSACTION'', Number 0]"
  "map_sum id fst
     (listen ascii_split ascii_upper Database_init
        [''SET a 1'', ''BEGIN'', ''SET a 2'', ''BEGIN'', ''SET a 3'', ''COMMIT'', ''GET a'',
         ''ROLLBACK''])
     = Inr [Text ''3'', Text ''NO TRANSACTION'']"
  by code_simp+

subsection \<open>Dictionaries and frequencies\<close>

lemma dict_get_update:
  "dict_get (AList.update k v d) k' x = (if k' = k then v else dict_get d k' x)"
  by (simp add: dict_get_def update_conv')

lemma dict_get_delete:
  "dict_get (AList.delete k d) k' x = (if k' = k then x else dict_get d k' x)"
  by (simp add: dict_get_def delete_conv')

lemma dict_get_Nil: "dict_get [] k x = x"
  by (simp add: dict_get_def)

lemma dict_get_modify_freq:
  "dict_get (modify_freq vf kv n) w 0 = dict_get vf w 0 + (if kv = Some w then n else 0)"
  by (cases kv) (auto simp: modify_freq_def Let_def dict_get_update dict_get_delete)

lemma distinct_modify_freq:
  "distinct (map fst vf) \<Longrightarrow> distinct (map fst (modify_freq vf kv n))"
  by (cases kv) (auto simp: modify_freq_def Let_def distinct_update distinct_delete)

lemma num_keys_change:
  assumes fin: "finite {k. f k = Some v}" and same: "\<And>k. k \<noteq> a \<Longrightarrow> g k = f k"
  shows "num_keys g v =
           num_keys f v - (if f a = Some v then 1 else 0) + (if g a = Some v then 1 else 0)"
proof -
  define F where "F = {k. f k = Some v}"
  define G where "G = {k. g k = Some v}"
  define D where "D = F - {a}"
  have finD: "finite D" and aD: "a \<notin> D"
    using fin by (simp_all add: D_def F_def)
  have G: "G = (if g a = Some v then insert a D else D)"
  proof (rule set_eqI)
    fix x show "x \<in> G \<longleftrightarrow> x \<in> (if g a = Some v then insert a D else D)"
      using same [of x] by (cases "x = a") (auto simp: G_def D_def F_def)
  qed
  have F: "F = (if f a = Some v then insert a D else D)"
    by (auto simp: D_def F_def)
  have cG: "int (card G) = int (card D) + (if g a = Some v then 1 else 0)"
    using finD aD by (simp add: G)
  have cF: "int (card F) = int (card D) + (if f a = Some v then 1 else 0)"
    using finD aD by (simp add: F)
  show ?thesis
    using cG cF by (simp add: num_keys_def F_def G_def)
qed

subsection \<open>Direct unset\<close>

lemma Database_unset_no_transaction:
  "\<not> is_transaction_active db \<Longrightarrow> Database_unset db key = Inl AttributeError"
  by (simp add: Database_unset_def)

text \<open>
  C5. Direct unset with no open transaction should remove a key that is in the store and
  decrease the frequency of its old value by one. The code does neither: after
  \<open>set('a', '1')\<close> on a new database, \<open>unset('a')\<close> raises \<open>AttributeError\<close>
  (the method reads \<open>self.data\<close>, which a \<open>Database\<close> does not have).
\<close>

theorem direct_unset_raises:
  "Database_set Database_init ''a'' ''1'' =
     Inr \<lparr>database = \<lparr>data = [(''a'', ''1'')], values_freq = [(''1'', 1)]\<rparr>,
          transaction_handler = TransactionHandler_init\<rparr>
   \<and> \<not> is_transaction_active
         \<lparr>database = \<lparr>data = [(''a'', ''1'')], values_freq = [(''1'', 1)]\<rparr>,
          transaction_handler = TransactionHandler_init\<rparr>
   \<and> Database_unset
         \<lparr>database = \<lparr>data = [(''a'', ''1'')], values_freq = [(''1'', 1)]\<rparr>,
          transaction_handler = TransactionHandler_init\<rparr> ''a'' = Inl AttributeError"
  by code_simp

text \<open>
  C6. Unsetting a key whose current value is absent should be a no-op in every state.
  With a transaction open it is (lemma \<open>unset_absent_in_transaction\<close>); with none open
  the call raises \<open>AttributeError\<close>, as every direct unset does: on a new database,
  where \<open>get('a')\<close> is \<open>None\<close>, \<open>unset('a')\<close> does not return.
\<close>

theorem unset_absent_raises:
  "Database_get Database_init ''a'' = None
   \<and> Database_unset Database_init ''a'' = Inl AttributeError"
  by code_simp

lemma unset_absent_in_transaction:
  "is_transaction_active db \<Longrightarrow> Database_get db key = None \<Longrightarrow> Database_unset db key = Inr db"
  by (simp add: Database_unset_def TransactionHandler_unset_def)

subsection \<open>Set of the current value\<close>

text \<open>
  C7. No-op set: in every state, \<open>set(key, v)\<close> when the current value of the key is
  already \<open>v\<close> returns the database as it was: store data, both frequency tables, the
  history and every transaction's set of keys are unchanged.
\<close>

theorem set_current_value_noop:
  "Database_get db key = Some v \<Longrightarrow> Database_set db key v = Inr db"
  by (simp add: Database_set_def)

theorem set_current_value_noop_witness:
  "Database_get
     \<lparr>database = \<lparr>data = [(''a'', ''1'')], values_freq = [(''1'', 1)]\<rparr>,
      transaction_handler =
        \<lparr>transactions = \<lparr>data = [(''a'', [Some ''2''])], values_freq = [(''1'', - 1), (''2'', 1)]\<rparr>,
         transactions_opened = [[''a'']]\<rparr>\<rparr> ''a'' = Some ''2''
   \<and> Database_set
     \<lparr>database = \<lparr>data = [(''a'', ''1'')], values_freq = [(''1'', 1)]\<rparr>,
      transaction_handler =
        \<lparr>transactions = \<lparr>data = [(''a'', [Some ''2''])], values_freq = [(''1'', - 1), (''2'', 1)]\<rparr>,
         transactions_opened = [[''a'']]\<rparr>\<rparr> ''a'' ''2''
     = Inr \<lparr>database = \<lparr>data = [(''a'', ''1'')], values_freq = [(''1'', 1)]\<rparr>,
      transaction_handler =
        \<lparr>transactions = \<lparr>data = [(''a'', [Some ''2''])], values_freq = [(''1'', - 1), (''2'', 1)]\<rparr>,
         transactions_opened = [[''a'']]\<rparr>\<rparr>"
proof -
  have g: "Database_get
     \<lparr>database = \<lparr>data = [(''a'', ''1'')], values_freq = [(''1'', 1)]\<rparr>,
      transaction_handler =
        \<lparr>transactions = \<lparr>data = [(''a'', [Some ''2''])], values_freq = [(''1'', - 1), (''2'', 1)]\<rparr>,
         transactions_opened = [[''a'']]\<rparr>\<rparr> ''a'' = Some ''2''"
    by code_simp
  show ?thesis
    using g set_current_value_noop [OF g] by simp
qed

subsection \<open>The console\<close>

text \<open>
  C9 as stated fails: the ASCII line \<open>END x\<close> has a verb, and \<open>(END, 1)\<close> is no pair
  of the table of valid operations, yet the console prints nothing and stops listening,
  because the end operations are tested before the table is.
\<close>

theorem end_line_counterexample:
  "list_all is_ascii ''END x''
   \<and> ascii_split ''END x'' \<noteq> []
   \<and> (ascii_upper (hd (ascii_split ''END x'')), length (tl (ascii_split ''END x'')))
       \<notin> valid_operations_arguments
   \<and> read_from_stdin ascii_split ascii_upper Database_init (Some ''END x'')
       = Inr (False, [], Database_init)"
  by code_simp

text \<open>
  C9, amended. Whatever \<open>split\<close> and \<open>upper\<close> do, for every line: when the line has
  at least one field, its uppercased verb is not \<open>END\<close> and the verb with the number
  of arguments is no pair of the table of valid operations, the console prints exactly
  \<open>Invalid method or number of arguments\<close>, leaves the database as it was, and goes on
  with the lines that follow; when the uppercased verb is \<open>END\<close>, with any number of
  arguments, it prints nothing, leaves the database as it was and stops, the lines that
  follow being ignored; when the line has no field, it prints nothing, leaves the
  database as it was and goes on with the lines that follow.
\<close>

theorem invalid_line_rejected:
  fixes split :: "string \<Rightarrow> string list" and upper :: "string \<Rightarrow> string"
  shows
    "(split line \<noteq> [] \<and> upper (hd (split line)) \<notin> end_operation
        \<and> (upper (hd (split line)), length (tl (split line))) \<notin> valid_operations_arguments
      \<longrightarrow> read_from_stdin split upper db (Some line)
            = Inr (True, [Text ''Invalid method or number of arguments''], db)
          \<and> listen split upper db (line # lines)
            = (case listen split upper db lines of
                 Inl e \<Rightarrow> Inl e
               | Inr (out, db') \<Rightarrow> Inr (Text ''Invalid method or number of arguments'' # out, db')))
     \<and> (split line \<noteq> [] \<and> upper (hd (split line)) \<in> end_operation
      \<longrightarrow> read_from_stdin split upper db (Some line) = Inr (False, [], db)
          \<and> listen split upper db (line # lines) = Inr ([], db))
     \<and> (split line = []
      \<longrightarrow> read_from_stdin split upper db (Some line) = Inr (True, [], db)
          \<and> listen split upper db (line # lines) = listen split upper db lines)"
proof (intro conjI impI)
  assume h: "split line \<noteq> [] \<and> upper (hd (split line)) \<notin> end_operation
               \<and> (upper (hd (split line)), length (tl (split line)))
                   \<notin> valid_operations_arguments"
  then show r: "read_from_stdin split upper db (Some line)
                  = Inr (True, [Text ''Invalid method or number of arguments''], db)"
    by (simp add: read_from_stdin_def Let_def)
  show "listen split upper db (line # lines)
          = (case listen split upper db lines of
               Inl e \<Rightarrow> Inl e
             | Inr (out, db') \<Rightarrow> Inr (Text ''Invalid method or number of arguments'' # out, db'))"
    by (simp add: r split: sum.splits)
next
  assume h: "split line \<noteq> [] \<and> upper (hd (split line)) \<in> end_operation"
  then show r: "read_from_stdin split upper db (Some line) = Inr (False, [], db)"
    by (simp add: read_from_stdin_def Let_def)
  show "listen split upper db (line # lines) = Inr ([], db)"
    by (simp add: r)
next
  assume h: "split line = []"
  then show r: "read_from_stdin split upper db (Some line) = Inr (True, [], db)"
    by (simp add: read_from_stdin_def Let_def)
  show "listen split upper db (line # lines) = listen split upper db lines"
    by (cases "listen split upper db lines") (auto simp: r)
qed

theorem invalid_line_rejected_witness:
  "list_all is_ascii ''get a b''
   \<and> ascii_split ''get a b'' \<noteq> []
   \<and> ascii_upper (hd (ascii_split ''get a b'')) \<notin> end_operation
   \<and> (ascii_upper (hd (ascii_split ''get a b'')), length (tl (ascii_split ''get a b'')))
       \<notin> valid_operations_arguments
   \<and> read_from_stdin ascii_split ascii_upper Database_init (Some ''get a b'')
       = Inr (True, [Text ''Invalid method or number of arguments''], Database_init)
   \<and> listen ascii_split ascii_upper Database_init [''get a b'', ''BEGIN'']
       = (case listen ascii_split ascii_upper Database_init [''BEGIN''] of
            Inl e \<Rightarrow> Inl e
          | Inr (out, db') \<Rightarrow> Inr (Text ''Invalid method or number of arguments'' # out, db'))
   \<and> list_all is_ascii ''end now''
   \<and> ascii_split ''end now'' \<noteq> []
   \<and> ascii_upper (hd (ascii_split ''end now'')) \<in> end_operation
   \<and> read_from_stdin ascii_split ascii_upper Database_init (Some ''end now'')
       = Inr (False, [], Database_init)
   \<and> listen ascii_split ascii_upper Database_init [''end now'', ''SET a 1'']
       = Inr ([], Database_init)
   \<and> list_all is_ascii ''   ''
   \<and> ascii_split ''   '' = []
   \<and> read_from_stdin ascii_split ascii_upper Database_init (Some ''   '')
       = Inr (True, [], Database_init)
   \<and> listen ascii_split ascii_upper Database_init [''   '', ''BEGIN'']
       = listen ascii_split ascii_upper Database_init [''BEGIN'']"
proof -
  have a: "list_all is_ascii ''get a b''" "list_all is_ascii ''end now''"
    "list_all is_ascii ''   ''"
    by code_simp+
  have h1: "ascii_split ''get a b'' \<noteq> []" by code_simp
  have h2: "ascii_upper (hd (ascii_split ''get a b'')) \<notin> end_operation" by code_simp
  have h3: "(ascii_upper (hd (ascii_split ''get a b'')), length (tl (ascii_split ''get a b'')))
              \<notin> valid_operations_arguments" by code_simp
  have e1: "ascii_split ''end now'' \<noteq> []" by code_simp
  have e2: "ascii_upper (hd (ascii_split ''end now'')) \<in> end_operation" by code_simp
  have b1: "ascii_split ''   '' = []" by code_simp
  show ?thesis
    using a h1 h2 h3 e1 e2 b1
      invalid_line_rejected [where split = ascii_split and upper = ascii_upper
        and line = "''get a b''" and db = Database_init and lines = "[''BEGIN'']"]
      invalid_line_rejected [where split = ascii_split and upper = ascii_upper
        and line = "''end now''" and db = Database_init and lines = "[''SET a 1'']"]
      invalid_line_rejected [where split = ascii_split and upper = ascii_upper
        and line = "''   ''" and db = Database_init and lines = "[''BEGIN'']"]
    by blast
qed

subsection \<open>The invariant holds in every reachable state\<close>

lemma history_Some: "history th key \<noteq> [] \<Longrightarrow> map_of (data (transactions th)) key = Some (history th key)"
  by (auto simp: history_def dict_get_def split: option.splits)

lemma history_None: "map_of (data (transactions th)) key = None \<Longrightarrow> history th key = []"
  by (simp add: history_def dict_get_def)

lemma TransactionHandler_set_eq:
  assumes "transactions_opened th \<noteq> []"
    and "key \<in> set (last (transactions_opened th)) \<Longrightarrow> history th key \<noteq> []"
  shows "TransactionHandler_set th key old_value new_value =
           Inr (record_entry th key (Some new_value)
                  (increase_freq (decrease_freq (values_freq (transactions th)) old_value)
                     (Some new_value)))"
proof (cases "key \<in> set (last (transactions_opened th))")
  case True
  then have h: "history th key \<noteq> []" using assms(2) by simp
  then have m: "map_of (data (transactions th)) key = Some (history th key)"
    by (rule history_Some)
  show ?thesis
    using True h m assms(1)
    by (simp add: TransactionHandler_set_def record_entry_def is_active_def get_active_size_def
        Let_def dict_get_def)
next
  case False
  show ?thesis
  proof (cases "map_of (data (transactions th)) key")
    case None
    then have "history th key = []" by (rule history_None)
    with None False assms(1) show ?thesis
      by (simp add: TransactionHandler_set_def record_entry_def is_active_def get_active_size_def
          Let_def dict_get_update)
  next
    case (Some l)
    then have "history th key = l" by (simp add: history_def dict_get_def)
    with Some False assms(1) show ?thesis
      by (simp add: TransactionHandler_set_def record_entry_def is_active_def get_active_size_def
          Let_def dict_get_def)
  qed
qed

lemma TransactionHandler_unset_eq:
  assumes "transactions_opened th \<noteq> []" and "old_value \<noteq> None"
    and "key \<in> set (last (transactions_opened th)) \<Longrightarrow> history th key \<noteq> []"
  shows "TransactionHandler_unset th key old_value =
           Inr (record_entry th key None
                  (decrease_freq (values_freq (transactions th)) old_value))"
proof (cases "key \<in> set (last (transactions_opened th))")
  case True
  then have h: "history th key \<noteq> []" using assms(3) by simp
  then have m: "map_of (data (transactions th)) key = Some (history th key)"
    by (rule history_Some)
  show ?thesis
    using True h m assms(1,2)
    by (simp add: TransactionHandler_unset_def record_entry_def is_active_def get_active_size_def
        Let_def dict_get_def update_conv')
next
  case False
  then show ?thesis
    using assms(1,2)
    by (simp add: TransactionHandler_unset_def record_entry_def is_active_def get_active_size_def
          Let_def dict_get_update history_def)
qed


lemma history_record_entry:
  "history (record_entry th key e vf) k =
     (if k = key
      then (if key \<in> set (last (transactions_opened th)) then butlast (history th key)
            else history th key) @ [e]
      else history th k)"
  by (simp add: record_entry_def Let_def history_def dict_get_update)

lemma values_freq_record_entry: "values_freq (transactions (record_entry th key e vf)) = vf"
  by (simp add: record_entry_def Let_def)

lemma opened_record_entry:
  "transactions_opened (record_entry th key e vf) =
     butlast (transactions_opened th)
       @ [if key \<in> set (last (transactions_opened th)) then last (transactions_opened th)
          else last (transactions_opened th) @ [key]]"
  by (simp add: record_entry_def Let_def)

lemma touching_record_entry:
  assumes "transactions_opened th \<noteq> []"
  shows "touching (record_entry th key e vf) k =
           touching th k
             + (if k = key \<and> key \<notin> set (last (transactions_opened th)) then 1 else 0)"
proof -
  obtain bs top where o: "transactions_opened th = bs @ [top]"
    using assms by (metis append_butlast_last_id)
  show ?thesis
    by (simp add: touching_def opened_record_entry o)
qed

lemma handler_inv_record_entry:
  assumes inv: "handler_inv [] th" and act: "transactions_opened th \<noteq> []"
    and vf: "distinct (map fst vf)"
  shows "handler_inv [] (record_entry th key e vf)"
proof -
  obtain bs top where o: "transactions_opened th = bs @ [top]"
    using act by (metis append_butlast_last_id)
  have d1: "distinct (map fst (data (transactions (record_entry th key e vf))))"
    using inv by (simp add: handler_inv_def record_entry_def Let_def distinct_update)
  have d3: "\<forall>k. map_of (data (transactions (record_entry th key e vf))) k \<noteq> Some []"
    using inv by (simp add: handler_inv_def record_entry_def Let_def update_conv')
  have d4: "\<forall>t \<in> set (transactions_opened (record_entry th key e vf)). distinct t"
    using inv by (auto simp: handler_inv_def opened_record_entry o)
  have len: "\<And>k. length (history th k) = touching th k"
    using inv by (simp add: handler_inv_def)
  have pos: "key \<in> set top \<Longrightarrow> touching th key > 0"
    by (simp add: touching_def o)
  have d5: "length (history (record_entry th key e vf) k)
              = touching (record_entry th key e vf) k + (if k \<in> set [] then 1 else 0)" for k
  proof (cases "k = key \<and> key \<in> set top")
    case True
    then have "length (history th key) > 0" using pos len [of key] by simp
    with True show ?thesis
      using len [of key] by (simp add: history_record_entry touching_record_entry [OF act] o)
  next
    case False
    then show ?thesis
      using len [of k] by (auto simp: history_record_entry touching_record_entry [OF act] o)
  qed
  have d6: "transactions_opened (record_entry th key e vf) \<noteq> []"
    by (simp add: opened_record_entry)
  show ?thesis
    unfolding handler_inv_def using d1 d3 d4 d5 d6 vf by (simp add: values_freq_record_entry)
qed

lemma merged_record_entry:
  "merged store (record_entry th key e vf) k = (if k = key then e else merged store th k)"
  by (simp add: merged_def history_record_entry)

lemma finite_map_of_eq: "finite {k. map_of d k = Some v}"
proof (rule finite_subset)
  show "{k. map_of d k = Some v} \<subseteq> dom (map_of d)" by auto
  show "finite (dom (map_of d))" by (rule finite_dom_map_of)
qed

lemma finite_merged: "finite {k. merged store th k = Some v}"
proof (rule finite_subset)
  show "{k. merged store th k = Some v}
          \<subseteq> dom (map_of (data store)) \<union> dom (map_of (data (transactions th)))"
    by (auto simp: merged_def history_def dict_get_def split: if_splits option.splits)
  show "finite (dom (map_of (data store)) \<union> dom (map_of (data (transactions th))))"
    by (simp add: finite_dom_map_of)
qed

lemma delta_inv_record_entry:
  assumes d: "delta_inv store th"
    and vf: "\<And>v. dict_get vf v 0
                 = dict_get (values_freq (transactions th)) v 0
                   - (if merged store th key = Some v then 1 else 0)
                   + (if e = Some v then 1 else 0)"
  shows "delta_inv store (record_entry th key e vf)"
  unfolding delta_inv_def
proof
  fix v
  have "num_keys (merged store (record_entry th key e vf)) v =
          num_keys (merged store th) v - (if merged store th key = Some v then 1 else 0)
            + (if merged store (record_entry th key e vf) key = Some v then 1 else 0)"
    by (rule num_keys_change [OF finite_merged]) (simp add: merged_record_entry)
  then show "dict_get (values_freq (transactions (record_entry th key e vf))) v 0 =
          num_keys (merged store (record_entry th key e vf)) v - num_keys (map_of (data store)) v"
    using d vf [of v] by (simp add: delta_inv_def values_freq_record_entry merged_record_entry)
qed


lemma rollback_key_eq:
  assumes "history th key \<noteq> []"
  shows "rollback_key store key th = Inr (pop_entry store th key)"
proof -
  have m: "map_of (data (transactions th)) key = Some (history th key)"
    using assms by (rule history_Some)
  show ?thesis
    using assms m
    by (simp add: rollback_key_def pop_entry_def Let_def TransactionHandler_get_def
        dict_get_update delete_update_same)
qed

lemma history_pop_entry:
  "history (pop_entry store th key) k = (if k = key then butlast (history th key) else history th k)"
  by (simp add: pop_entry_def Let_def history_def dict_get_update dict_get_delete)

lemma opened_pop_entry: "transactions_opened (pop_entry store th key) = transactions_opened th"
  by (simp add: pop_entry_def Let_def)

lemma touching_pop_entry: "touching (pop_entry store th key) k = touching th k"
  by (simp add: touching_def opened_pop_entry)

lemma merged_pop_entry:
  "merged store (pop_entry store th key) k =
     (if k = key
      then (if butlast (history th key) = [] then map_of (data store) key
            else last (butlast (history th key)))
      else merged store th k)"
  by (simp add: merged_def history_pop_entry)

lemma handler_inv_pop_entry:
  assumes inv: "handler_inv (key # pending) th" and new: "key \<notin> set pending"
    and act: "transactions_opened th \<noteq> []"
  shows "handler_inv pending (pop_entry store th key)"
proof -
  have d1: "distinct (map fst (data (transactions (pop_entry store th key))))"
    using inv by (simp add: handler_inv_def pop_entry_def Let_def distinct_update distinct_delete)
  have d2: "distinct (map fst (values_freq (transactions (pop_entry store th key))))"
    using inv
    by (simp add: handler_inv_def pop_entry_def Let_def increase_freq_def decrease_freq_def
        distinct_modify_freq)
  have d3: "\<forall>k. map_of (data (transactions (pop_entry store th key))) k \<noteq> Some []"
    using inv by (simp add: handler_inv_def pop_entry_def Let_def update_conv' delete_conv')
  have d4: "\<forall>t \<in> set (transactions_opened (pop_entry store th key)). distinct t"
    using inv by (simp add: handler_inv_def opened_pop_entry)
  have len: "\<And>k. length (history th k)
               = touching th k + (if k \<in> set (key # pending) then 1 else 0)"
    using inv by (simp add: handler_inv_def)
  have d5: "length (history (pop_entry store th key) k)
              = touching (pop_entry store th key) k + (if k \<in> set pending then 1 else 0)" for k
    using len [of k] new by (auto simp: history_pop_entry touching_pop_entry)
  show ?thesis
    unfolding handler_inv_def using d1 d2 d3 d4 d5 act by (simp add: opened_pop_entry)
qed

lemma delta_inv_pop_entry:
  assumes d: "delta_inv store th" and h: "history th key \<noteq> []"
  shows "delta_inv store (pop_entry store th key)"
  unfolding delta_inv_def
proof
  fix v
  let ?th' = "pop_entry store th key"
  have n: "num_keys (merged store ?th') v =
          num_keys (merged store th) v - (if merged store th key = Some v then 1 else 0)
            + (if merged store ?th' key = Some v then 1 else 0)"
    by (rule num_keys_change [OF finite_merged]) (simp add: merged_pop_entry)
  have m: "merged store th key = last (history th key)"
    using h by (simp add: merged_def)
  have f: "dict_get (values_freq (transactions ?th')) v 0 =
             dict_get (values_freq (transactions th)) v 0
               + (if merged store ?th' key = Some v then 1 else 0)
               - (if last (history th key) = Some v then 1 else 0)"
    by (simp add: pop_entry_def Let_def increase_freq_def decrease_freq_def dict_get_modify_freq
        merged_def history_def dict_get_update dict_get_delete)
  show "dict_get (values_freq (transactions ?th')) v 0 =
          num_keys (merged store ?th') v - num_keys (map_of (data store)) v"
    using d n m f by (simp add: delta_inv_def)
qed

lemma rollback_loop_inv:
  assumes "handler_inv pending th" and "distinct pending" and "delta_inv store th"
    and "transactions_opened th \<noteq> []"
  shows "\<exists>th'. rollback_loop store pending th = Inr th'
           \<and> handler_inv [] th' \<and> delta_inv store th'
           \<and> transactions_opened th' = transactions_opened th
           \<and> (\<forall>k. history th' k
                  = (if k \<in> set pending then butlast (history th k) else history th k))"
  using assms
proof (induction pending arbitrary: th)
  case Nil
  then show ?case by simp
next
  case (Cons key pending)
  have "length (history th key) = touching th key + 1"
    using Cons.prems(1) by (simp add: handler_inv_def)
  then have h: "history th key \<noteq> []" by auto
  let ?th1 = "pop_entry store th key"
  have new: "key \<notin> set pending" and dist: "distinct pending"
    using Cons.prems(2) by simp_all
  have i1: "handler_inv pending ?th1"
    using Cons.prems(1) new Cons.prems(4) by (rule handler_inv_pop_entry)
  have i2: "delta_inv store ?th1"
    using Cons.prems(3) h by (rule delta_inv_pop_entry)
  have i3: "transactions_opened ?th1 \<noteq> []"
    using Cons.prems(4) by (simp add: opened_pop_entry)
  from Cons.IH [OF i1 dist i2 i3] obtain th' where
    r: "rollback_loop store pending ?th1 = Inr th'" and
    a: "handler_inv [] th'" "delta_inv store th'"
       "transactions_opened th' = transactions_opened ?th1" and
    hist: "\<forall>k. history th' k
              = (if k \<in> set pending then butlast (history ?th1 k) else history ?th1 k)"
    by blast
  have "rollback_loop store (key # pending) th = Inr th'"
    by (simp add: rollback_key_eq [OF h] r)
  moreover have "\<forall>k. history th' k
                   = (if k \<in> set (key # pending) then butlast (history th k) else history th k)"
    using hist new by (auto simp: history_pop_entry)
  ultimately show ?case
    using a by (simp add: opened_pop_entry)
qed


lemma history_Data_init: "transactions th = Data_init \<Longrightarrow> history th k = []"
  by (simp add: history_def Data_init_def dict_get_Nil)

lemma delta_inv_Data_init:
  assumes "transactions th = Data_init"
  shows "delta_inv store th"
proof -
  have "merged store th = map_of (data store)"
    using assms by (simp add: fun_eq_iff merged_def history_Data_init)
  moreover have "dict_get (values_freq (transactions th)) v 0 = 0" for v
    using assms by (simp add: Data_init_def dict_get_Nil)
  ultimately show ?thesis
    by (simp add: delta_inv_def)
qed

lemma merged_cong:
  "transactions th' = transactions th \<Longrightarrow> merged store th' = merged store th"
  by (simp add: fun_eq_iff merged_def history_def)

lemma delta_inv_cong:
  "transactions th' = transactions th \<Longrightarrow> delta_inv store th' = delta_inv store th"
  using merged_cong [of th' th store] by (simp add: delta_inv_def)

lemma butlast_single: "length xs = Suc 0 \<Longrightarrow> butlast xs = []"
  by (cases xs) auto

lemma handler_inv_clear: "handler_inv [] (clear th)"
  by (simp add: handler_inv_def clear_def Data_init_def history_def dict_get_Nil touching_def)

lemma inv_history_nonempty:
  assumes "handler_inv [] th" and "transactions_opened th \<noteq> []"
    and "key \<in> set (last (transactions_opened th))"
  shows "history th key \<noteq> []"
proof -
  obtain bs top where o: "transactions_opened th = bs @ [top]"
    using assms(2) by (metis append_butlast_last_id)
  have "touching th key > 0" using assms(3) by (simp add: touching_def o)
  moreover have "length (history th key) = touching th key"
    using assms(1) by (simp add: handler_inv_def)
  ultimately show ?thesis by auto
qed

lemma TransactionHandler_rollback_inv:
  assumes inv: "handler_inv [] th" and d: "delta_inv store th"
    and o: "transactions_opened th = ls @ [latest]"
  shows "\<exists>th'. TransactionHandler_rollback th store = Inr th'
           \<and> handler_inv [] th' \<and> delta_inv store th'
           \<and> transactions_opened th' = ls
           \<and> (\<forall>k. history th' k
                  = (if k \<in> set latest then butlast (history th k) else history th k))"
proof (cases "ls = []")
  case True
  have len: "\<And>k. length (history th k) = (if k \<in> set latest then 1 else 0)"
    using inv o True by (simp add: handler_inv_def touching_def)
  have h: "history (clear th) k = (if k \<in> set latest then butlast (history th k) else history th k)"
    for k
    using len [of k] by (auto simp: clear_def history_Data_init butlast_single)
  have "TransactionHandler_rollback th store = Inr (clear th)"
    using o True
    by (simp add: TransactionHandler_rollback_def is_active_def is_one_active_def
        get_active_size_def)
  moreover have "delta_inv store (clear th)"
    by (rule delta_inv_Data_init) (simp add: clear_def)
  moreover have "transactions_opened (clear th) = ls"
    using True by (simp add: clear_def)
  ultimately show ?thesis
    using handler_inv_clear h by blast
next
  case False
  let ?th0 = "th\<lparr>transactions_opened := ls\<rparr>"
  have hist0: "\<And>k. history ?th0 k = history th k"
    by (simp add: history_def)
  have i0: "handler_inv latest ?th0"
    using inv o False by (auto simp: handler_inv_def touching_def history_def)
  have dist: "distinct latest"
    using inv o by (simp add: handler_inv_def)
  have d0: "delta_inv store ?th0"
    using d delta_inv_cong [of ?th0 th store] by simp
  have a0: "transactions_opened ?th0 \<noteq> []"
    using False by simp
  from rollback_loop_inv [OF i0 dist d0 a0] obtain th' where
    r: "rollback_loop store latest ?th0 = Inr th'" and
    a: "handler_inv [] th'" "delta_inv store th'" "transactions_opened th' = ls" and
    hist: "\<forall>k. history th' k
              = (if k \<in> set latest then butlast (history ?th0 k) else history ?th0 k)"
    by auto
  have "TransactionHandler_rollback th store = Inr th'"
    using o False r
    by (simp add: TransactionHandler_rollback_def is_active_def is_one_active_def
        get_active_size_def)
  then show ?thesis
    using a hist by (simp add: hist0)
qed

lemma commit_data_returns:
  "\<forall>(key, key_list) \<in> set items. key_list \<noteq> [] \<Longrightarrow> \<exists>d'. commit_data items d = Inr d'"
proof (induction items arbitrary: d)
  case Nil
  then show ?case by simp
next
  case (Cons item items)
  obtain key key_list where i: "item = (key, key_list)" by (cases item)
  with Cons.prems have ne: "key_list \<noteq> []" and rest: "\<forall>(key, key_list) \<in> set items. key_list \<noteq> []"
    by auto
  show ?case
    using ne Cons.IH [OF rest] by (simp add: i split: option.splits)
qed

lemma inv_entries_nonempty:
  assumes "handler_inv pending th"
  shows "\<forall>(key, key_list) \<in> set (data (transactions th)). key_list \<noteq> []"
proof (clarify)
  fix key assume "(key, []) \<in> set (data (transactions th))"
  moreover have "distinct (map fst (data (transactions th)))"
    using assms by (simp add: handler_inv_def)
  ultimately have "map_of (data (transactions th)) key = Some []" by simp
  then show False using assms by (simp add: handler_inv_def)
qed

lemma TransactionHandler_commit_returns:
  assumes "handler_inv [] th" and "transactions_opened th \<noteq> []"
  shows "\<exists>d'. commit_data (data (transactions th)) (data store) = Inr d'
           \<and> TransactionHandler_commit th store =
               Inr (clear th,
                    \<lparr>data = d',
                     values_freq =
                       commit_freq (values_freq (transactions th)) (values_freq store)\<rparr>)"
proof -
  obtain d' where "commit_data (data (transactions th)) (data store) = Inr d'"
    using commit_data_returns [OF inv_entries_nonempty [OF assms(1)]] by blast
  then show ?thesis
    using assms(2) by (simp add: TransactionHandler_commit_def is_active_def get_active_size_def)
qed

lemma Database_get_merged:
  assumes "handler_inv [] (transaction_handler db)"
  shows "Database_get db key = merged (database db) (transaction_handler db) key"
proof (cases "transactions_opened (transaction_handler db) = []")
  case True
  then have "transactions (transaction_handler db) = Data_init"
    using assms by (simp add: handler_inv_def)
  then have "history (transaction_handler db) key = []" by (rule history_Data_init)
  then show ?thesis
    using True
    by (simp add: Database_get_def is_transaction_active_def is_active_def get_active_size_def
        merged_def)
next
  case False
  then show ?thesis
    by (simp add: Database_get_def is_transaction_active_def is_active_def get_active_size_def
        TransactionHandler_get_def merged_def history_def Let_def)
qed


lemma transactions_clear: "transactions (clear th) = Data_init"
  by (simp add: clear_def)

lemma active_opened:
  "is_transaction_active db \<longleftrightarrow> transactions_opened (transaction_handler db) \<noteq> []"
  by (simp add: is_transaction_active_def is_active_def get_active_size_def)

lemma Database_set_in_transaction:
  assumes inv: "db_inv db" and act: "is_transaction_active db"
    and new: "Database_get db key \<noteq> Some v"
  shows "Database_set db key v =
           Inr (db\<lparr>transaction_handler :=
                  record_entry (transaction_handler db) key (Some v)
                    (increase_freq
                       (decrease_freq (values_freq (transactions (transaction_handler db)))
                          (Database_get db key))
                       (Some v))\<rparr>)"
proof -
  have o: "transactions_opened (transaction_handler db) \<noteq> []"
    using act by (simp add: active_opened)
  have h: "key \<in> set (last (transactions_opened (transaction_handler db)))
             \<Longrightarrow> history (transaction_handler db) key \<noteq> []"
    using inv o by (simp add: db_inv_def inv_history_nonempty)
  show ?thesis
    using act new by (simp add: Database_set_def TransactionHandler_set_eq [OF o h])
qed

lemma Database_unset_in_transaction:
  assumes inv: "db_inv db" and act: "is_transaction_active db"
    and old: "Database_get db key \<noteq> None"
  shows "Database_unset db key =
           Inr (db\<lparr>transaction_handler :=
                  record_entry (transaction_handler db) key None
                    (decrease_freq (values_freq (transactions (transaction_handler db)))
                       (Database_get db key))\<rparr>)"
proof -
  have o: "transactions_opened (transaction_handler db) \<noteq> []"
    using act by (simp add: active_opened)
  have h: "key \<in> set (last (transactions_opened (transaction_handler db)))
             \<Longrightarrow> history (transaction_handler db) key \<noteq> []"
    using inv o by (simp add: db_inv_def inv_history_nonempty)
  show ?thesis
    using act by (simp add: Database_unset_def TransactionHandler_unset_eq [OF o old h])
qed

lemma db_inv_record_entry:
  assumes inv: "db_inv db" and act: "is_transaction_active db"
    and dist: "distinct (map fst vf)"
    and vf: "\<And>w. dict_get vf w 0
                 = dict_get (values_freq (transactions (transaction_handler db))) w 0
                   - (if Database_get db key = Some w then 1 else 0)
                   + (if e = Some w then 1 else 0)"
  shows "db_inv (db\<lparr>transaction_handler := record_entry (transaction_handler db) key e vf\<rparr>)"
proof -
  have o: "transactions_opened (transaction_handler db) \<noteq> []"
    using act by (simp add: active_opened)
  have hi: "handler_inv [] (transaction_handler db)"
    and di: "delta_inv (database db) (transaction_handler db)"
    using inv by (simp_all add: db_inv_def)
  have g: "Database_get db key = merged (database db) (transaction_handler db) key"
    using hi by (rule Database_get_merged)
  have "handler_inv [] (record_entry (transaction_handler db) key e vf)"
    using hi o dist by (rule handler_inv_record_entry)
  moreover have "delta_inv (database db) (record_entry (transaction_handler db) key e vf)"
  proof (rule delta_inv_record_entry [OF di])
    fix w
    show "dict_get vf w 0
            = dict_get (values_freq (transactions (transaction_handler db))) w 0
              - (if merged (database db) (transaction_handler db) key = Some w then 1 else 0)
              + (if e = Some w then 1 else 0)"
      using vf [of w] g by simp
  qed
  ultimately show ?thesis
    by (simp add: db_inv_def)
qed

lemma db_inv_set:
  assumes inv: "db_inv db" and r: "Database_set db key v = Inr db'"
  shows "db_inv db'"
proof (cases "Database_get db key = Some v")
  case True
  then show ?thesis using inv r by (simp add: Database_set_def)
next
  case False
  show ?thesis
  proof (cases "is_transaction_active db")
    case True
    have d: "distinct (map fst (values_freq (transactions (transaction_handler db))))"
      using inv by (simp add: db_inv_def handler_inv_def)
    have "db_inv (db\<lparr>transaction_handler :=
                  record_entry (transaction_handler db) key (Some v)
                    (increase_freq
                       (decrease_freq (values_freq (transactions (transaction_handler db)))
                          (Database_get db key))
                       (Some v))\<rparr>)"
      using inv True
      by (rule db_inv_record_entry)
         (simp_all add: d increase_freq_def decrease_freq_def distinct_modify_freq
            dict_get_modify_freq)
    then show ?thesis
      using r Database_set_in_transaction [OF inv True False] by simp
  next
    case inactive: False
    then have t: "transactions (transaction_handler db) = Data_init"
      using inv by (simp add: db_inv_def handler_inv_def active_opened)
    have db': "transaction_handler db' = transaction_handler db"
      using r False inactive by (auto simp: Database_set_def Let_def)
    show ?thesis
      using inv t by (simp add: db_inv_def db' delta_inv_Data_init)
  qed
qed

lemma db_inv_unset:
  assumes inv: "db_inv db" and r: "Database_unset db key = Inr db'"
  shows "db_inv db'"
proof -
  have act: "is_transaction_active db"
    using r by (auto simp: Database_unset_def Let_def split: if_splits)
  show ?thesis
  proof (cases "Database_get db key = None")
    case True
    then have "Database_unset db key = Inr db"
      using act by (simp add: Database_unset_def TransactionHandler_unset_def)
    then show ?thesis using inv r by simp
  next
    case False
    have d: "distinct (map fst (values_freq (transactions (transaction_handler db))))"
      using inv by (simp add: db_inv_def handler_inv_def)
    have "db_inv (db\<lparr>transaction_handler :=
                  record_entry (transaction_handler db) key None
                    (decrease_freq (values_freq (transactions (transaction_handler db)))
                       (Database_get db key))\<rparr>)"
      using inv act
      by (rule db_inv_record_entry)
         (simp_all add: d decrease_freq_def distinct_modify_freq dict_get_modify_freq)
    then show ?thesis
      using r Database_unset_in_transaction [OF inv act False] by simp
  qed
qed

lemma db_inv_begin:
  assumes "db_inv db"
  shows "db_inv (Database_begin db)"
proof -
  let ?th = "transaction_handler db"
  have t: "transactions (TransactionHandler_begin ?th) = transactions ?th"
    by (simp add: TransactionHandler_begin_def)
  have "handler_inv [] (TransactionHandler_begin ?th)"
    using assms
    by (simp add: db_inv_def handler_inv_def TransactionHandler_begin_def touching_def
        history_def)
  moreover have "delta_inv (database db) (TransactionHandler_begin ?th)"
    using assms delta_inv_cong [OF t, of "database db"] by (simp add: db_inv_def)
  ultimately show ?thesis
    by (simp add: db_inv_def Database_begin_def)
qed

lemma db_inv_rollback:
  assumes inv: "db_inv db" and r: "Database_rollback db = Inr (b, db')"
  shows "db_inv db'"
proof (cases "is_transaction_active db")
  case True
  then obtain ls latest where o: "transactions_opened (transaction_handler db) = ls @ [latest]"
    by (metis active_opened append_butlast_last_id)
  have hi: "handler_inv [] (transaction_handler db)"
    and di: "delta_inv (database db) (transaction_handler db)"
    using inv by (simp_all add: db_inv_def)
  from TransactionHandler_rollback_inv [OF hi di o] obtain th' where
    "TransactionHandler_rollback (transaction_handler db) (database db) = Inr th'"
    "handler_inv [] th'" "delta_inv (database db) th'"
    by blast
  then show ?thesis
    using r True by (auto simp: Database_rollback_def db_inv_def)
next
  case False
  then show ?thesis using inv r by (simp add: Database_rollback_def)
qed

lemma db_inv_commit:
  assumes inv: "db_inv db" and r: "Database_commit db = Inr (b, db')"
  shows "db_inv db'"
proof (cases "is_transaction_active db")
  case True
  have "transaction_handler db' = clear (transaction_handler db)"
    using r True
    by (auto simp: Database_commit_def TransactionHandler_commit_def active_opened is_active_def
        get_active_size_def split: sum.splits)
  then show ?thesis
    by (simp add: db_inv_def handler_inv_clear delta_inv_Data_init transactions_clear)
next
  case False
  then show ?thesis using inv r by (simp add: Database_commit_def)
qed

lemma db_inv_apply_operation:
  assumes "db_inv db" and "apply_operation op db = Inr db'"
  shows "db_inv db'"
proof (cases op)
  case (SET key v)
  then show ?thesis using assms db_inv_set by simp
next
  case (UNSET key)
  then show ?thesis using assms db_inv_unset by simp
next
  case BEGIN
  then show ?thesis using assms db_inv_begin by auto
next
  case ROLLBACK
  then show ?thesis using assms db_inv_rollback by (auto split: sum.splits)
next
  case COMMIT
  then show ?thesis using assms db_inv_commit by (auto split: sum.splits)
qed (use assms in auto)

lemma db_inv_init: "db_inv Database_init"
  by (simp add: db_inv_def Database_init_def TransactionHandler_init_def handler_inv_def
      Data_init_def history_def dict_get_Nil touching_def delta_inv_Data_init)

lemma touching_reordered:
  "list_all2 (\<lambda>t t'. mset t' = mset t) ts ts'
     \<Longrightarrow> length (filter (\<lambda>t. key \<in> set t) ts') = length (filter (\<lambda>t. key \<in> set t) ts)"
  by (induction rule: list_all2_induct) (auto dest: mset_eq_setD)

lemma distinct_reordered:
  "list_all2 (\<lambda>t t'. mset t' = mset t) ts ts' \<Longrightarrow> \<forall>t \<in> set ts. distinct t
     \<Longrightarrow> \<forall>t' \<in> set ts'. distinct t'"
  by (induction rule: list_all2_induct) (auto dest: mset_eq_imp_distinct_iff)

lemma db_inv_reordered:
  assumes inv: "db_inv db" and r: "reordered db db'"
  shows "db_inv db'"
proof -
  let ?th = "transaction_handler db" and ?th' = "transaction_handler db'"
  have st: "database db' = database db" and t: "transactions ?th' = transactions ?th"
    and l: "list_all2 (\<lambda>t t'. mset t' = mset t) (transactions_opened ?th)
              (transactions_opened ?th')"
    using r by (simp_all add: reordered_def)
  have hi: "handler_inv [] ?th" and di: "delta_inv (database db) ?th"
    using inv by (simp_all add: db_inv_def)
  have h: "history ?th' k = history ?th k" for k
    by (simp add: history_def t)
  have tc: "touching ?th' k = touching ?th k" for k
    using touching_reordered [OF l] by (simp add: touching_def)
  have e: "transactions_opened ?th' = [] \<longleftrightarrow> transactions_opened ?th = []"
    using list_all2_lengthD [OF l] by auto
  have "handler_inv [] ?th'"
    using hi distinct_reordered [OF l] by (simp add: handler_inv_def t h tc e)
  moreover have "delta_inv (database db') ?th'"
    using di delta_inv_cong [OF t, of "database db"] by (simp add: st)
  ultimately show ?thesis
    by (simp add: db_inv_def)
qed

lemma reachable_by_run:
  "reachable_by allowed db \<Longrightarrow> \<forall>op \<in> set ops. allowed op \<Longrightarrow> run ops db = Inr db'
     \<Longrightarrow> reachable_by allowed db'"
proof (induction ops arbitrary: db)
  case Nil
  then show ?case by simp
next
  case (Cons op ops)
  then show ?case
    by (auto split: sum.splits intro: reachable_by.call)
qed

lemma reachable_run: "run ops Database_init = Inr db \<Longrightarrow> reachable db"
  unfolding reachable_def by (rule reachable_by_run [OF reachable_by.new]) simp_all

lemma reachable_db_inv: "reachable db \<Longrightarrow> db_inv db"
  unfolding reachable_def
proof (induction rule: reachable_by.induct)
  case new
  show ?case by (rule db_inv_init)
next
  case (call db op db')
  then show ?case by (simp add: db_inv_apply_operation)
next
  case (order db db')
  then show ?case by (simp add: db_inv_reordered)
qed


lemma touching_positive:
  "touching th key > 0 \<longleftrightarrow> (\<exists>t \<in> set (transactions_opened th). key \<in> set t)"
  by (auto simp: touching_def filter_empty_conv)

lemma reachable_example_db: "reachable example_db"
proof (rule reachable_run)
  show "run [SET ''a'' ''1'', BEGIN, SET ''a'' ''2''] Database_init = Inr example_db"
    by code_simp
qed

subsection \<open>The history of a key\<close>

text \<open>
  C10. In every reachable state every key of the transaction data has a non-empty list,
  so the handler's \<open>get(key)\<close> reports \<open>found = True\<close> exactly when some opened
  transaction has written the key (holds it in its set).
\<close>

theorem history_entries_nonempty:
  assumes "reachable db"
  shows "(\<forall>(key, key_list) \<in> set (data (transactions (transaction_handler db))). key_list \<noteq> [])
         \<and> (snd (TransactionHandler_get (transaction_handler db) key)
              \<longleftrightarrow> (\<exists>t \<in> set (transactions_opened (transaction_handler db)). key \<in> set t))"
proof -
  have inv: "handler_inv [] (transaction_handler db)"
    using reachable_db_inv [OF assms] by (simp add: db_inv_def)
  have "length (history (transaction_handler db) key) = touching (transaction_handler db) key"
    using inv by (simp add: handler_inv_def)
  then have "history (transaction_handler db) key \<noteq> []
               \<longleftrightarrow> (\<exists>t \<in> set (transactions_opened (transaction_handler db)). key \<in> set t)"
    using touching_positive [of "transaction_handler db" key] by auto
  moreover have "snd (TransactionHandler_get (transaction_handler db) key)
                   \<longleftrightarrow> history (transaction_handler db) key \<noteq> []"
    by (simp add: TransactionHandler_get_def history_def Let_def)
  ultimately show ?thesis
    using inv_entries_nonempty [OF inv] by simp
qed

theorem history_entries_nonempty_witness:
  "reachable example_db
   \<and> snd (TransactionHandler_get (transaction_handler example_db) ''a'')
   \<and> (\<exists>t \<in> set (transactions_opened (transaction_handler example_db)). ''a'' \<in> set t)
   \<and> \<not> snd (TransactionHandler_get (transaction_handler example_db) ''b'')"
proof -
  have g: "snd (TransactionHandler_get (transaction_handler example_db) ''a'')"
    by code_simp
  have n: "\<not> (\<exists>t \<in> set (transactions_opened (transaction_handler example_db)). ''b'' \<in> set t)"
    by code_simp
  show ?thesis
    using g n reachable_example_db
      history_entries_nonempty [OF reachable_example_db, of "''a''"]
      history_entries_nonempty [OF reachable_example_db, of "''b''"]
    by blast
qed

text \<open>
  C8. In every reachable state the history of a key is as long as the number of opened
  transactions whose set holds the key; and when the most recent transaction already
  holds the key, \<open>set\<close> and \<open>unset\<close> return with the last entry of that history
  replaced (by the new value, by \<open>None\<close>) and no entry added: the history was not
  empty, and it is the same list but for its last entry.
\<close>

theorem history_discipline:
  assumes "reachable db"
  shows "length (history (transaction_handler db) key) = touching (transaction_handler db) key
         \<and> (is_transaction_active db
              \<and> key \<in> set (last (transactions_opened (transaction_handler db)))
            \<longrightarrow> history (transaction_handler db) key \<noteq> []
                \<and> (\<exists>db'. Database_set db key v = Inr db'
                       \<and> history (transaction_handler db') key
                           = butlast (history (transaction_handler db) key) @ [Some v])
                \<and> (\<exists>db'. Database_unset db key = Inr db'
                       \<and> history (transaction_handler db') key
                           = butlast (history (transaction_handler db) key) @ [None]))"
proof -
  let ?th = "transaction_handler db"
  have inv: "db_inv db" using assms by (rule reachable_db_inv)
  then have hi: "handler_inv [] ?th" by (simp add: db_inv_def)
  have len: "length (history ?th key) = touching ?th key"
    using hi by (simp add: handler_inv_def)
  have over: "history ?th key \<noteq> []
            \<and> (\<exists>db'. Database_set db key v = Inr db'
                  \<and> history (transaction_handler db') key = butlast (history ?th key) @ [Some v])
            \<and> (\<exists>db'. Database_unset db key = Inr db'
                  \<and> history (transaction_handler db') key = butlast (history ?th key) @ [None])"
    if act: "is_transaction_active db" and mem: "key \<in> set (last (transactions_opened ?th))"
  proof -
    have h: "history ?th key \<noteq> []"
      using hi act mem by (simp add: inv_history_nonempty active_opened)
    then have g: "Database_get db key = last (history ?th key)"
      using Database_get_merged [OF hi] by (simp add: merged_def)
    have s: "\<exists>db'. Database_set db key v = Inr db'
                  \<and> history (transaction_handler db') key = butlast (history ?th key) @ [Some v]"
    proof (cases "Database_get db key = Some v")
      case True
      then have "Database_set db key v = Inr db" by (simp add: Database_set_def)
      moreover have "history ?th key = butlast (history ?th key) @ [Some v]"
        using h g True by (metis append_butlast_last_id)
      ultimately show ?thesis by simp
    next
      case False
      show ?thesis
        using mem by (simp add: Database_set_in_transaction [OF inv act False] history_record_entry)
    qed
    have u: "\<exists>db'. Database_unset db key = Inr db'
                  \<and> history (transaction_handler db') key = butlast (history ?th key) @ [None]"
    proof (cases "Database_get db key = None")
      case True
      have "Database_unset db key = Inr db"
        using act True by (rule unset_absent_in_transaction)
      moreover have "history ?th key = butlast (history ?th key) @ [None]"
        using h g True by (metis append_butlast_last_id)
      ultimately show ?thesis by simp
    next
      case False
      show ?thesis
        using mem
        by (simp add: Database_unset_in_transaction [OF inv act False] history_record_entry)
    qed
    show ?thesis using h s u by simp
  qed
  show ?thesis using len over by blast
qed

theorem history_discipline_witness:
  "reachable example_db
   \<and> is_transaction_active example_db
   \<and> ''a'' \<in> set (last (transactions_opened (transaction_handler example_db)))
   \<and> length (history (transaction_handler example_db) ''a'')
       = touching (transaction_handler example_db) ''a''
   \<and> history (transaction_handler example_db) ''a'' \<noteq> []
   \<and> (\<exists>db'. Database_set example_db ''a'' ''3'' = Inr db'
          \<and> history (transaction_handler db') ''a''
              = butlast (history (transaction_handler example_db) ''a'') @ [Some ''3''])
   \<and> (\<exists>db'. Database_unset example_db ''a'' = Inr db'
          \<and> history (transaction_handler db') ''a''
              = butlast (history (transaction_handler example_db) ''a'') @ [None])"
proof -
  have a: "is_transaction_active example_db"
    by code_simp
  have m: "''a'' \<in> set (last (transactions_opened (transaction_handler example_db)))"
    by code_simp
  show ?thesis
    using a m reachable_example_db
      history_discipline [OF reachable_example_db, of "''a''" "''3''"]
    by blast
qed

subsection \<open>Rollback\<close>

lemma run_append:
  "run (xs @ ys) db = (case run xs db of Inl e \<Rightarrow> Inl e | Inr db' \<Rightarrow> run ys db')"
  by (induction xs arbitrary: db) (auto split: sum.splits)

lemma opened_above_begin:
  assumes "db_inv db0"
  shows "opened_above db0 (Database_begin db0)"
proof -
  have "transactions_opened (transaction_handler (Database_begin db0))
          = transactions_opened (transaction_handler db0) @ [[]]"
    by (simp add: Database_begin_def TransactionHandler_begin_def)
  moreover have "history (transaction_handler (Database_begin db0)) k
                   = history (transaction_handler db0) k" for k
    by (simp add: Database_begin_def TransactionHandler_begin_def history_def)
  moreover have "database (Database_begin db0) = database db0"
    by (simp add: Database_begin_def)
  ultimately show ?thesis
    using db_inv_begin [OF assms] by (simp add: opened_above_def)
qed

lemma opened_above_record_entry:
  assumes above: "opened_above db0 db"
    and inv': "db_inv (db\<lparr>transaction_handler := record_entry (transaction_handler db) key e vf\<rparr>)"
  shows "opened_above db0
           (db\<lparr>transaction_handler := record_entry (transaction_handler db) key e vf\<rparr>)"
proof -
  let ?th = "transaction_handler db" and ?base = "transaction_handler db0"
  obtain latest where o: "transactions_opened ?th = transactions_opened ?base @ [latest]"
    and h: "\<And>k. if k \<in> set latest
                 then history ?th k \<noteq> [] \<and> butlast (history ?th k) = history ?base k
                 else history ?th k = history ?base k"
    using above unfolding opened_above_def by blast
  let ?latest' = "if key \<in> set latest then latest else latest @ [key]"
  have o': "transactions_opened (record_entry ?th key e vf)
              = transactions_opened ?base @ [?latest']"
    by (simp add: opened_record_entry o)
  have h': "if k \<in> set ?latest'
            then history (record_entry ?th key e vf) k \<noteq> []
                 \<and> butlast (history (record_entry ?th key e vf) k) = history ?base k
            else history (record_entry ?th key e vf) k = history ?base k" for k
    using h [of k] h [of key] by (auto simp: history_record_entry o)
  have "database db = database db0"
    using above by (simp add: opened_above_def)
  then show ?thesis
    unfolding opened_above_def using inv' o' h' by auto
qed

lemma opened_above_active: "opened_above db0 db \<Longrightarrow> is_transaction_active db"
  by (auto simp: opened_above_def active_opened)

lemma opened_above_apply_operation:
  assumes above: "opened_above db0 db" and op: "is_data_operation op"
  shows "\<exists>db'. apply_operation op db = Inr db' \<and> opened_above db0 db'"
proof -
  have inv: "db_inv db" using above by (simp add: opened_above_def)
  have act: "is_transaction_active db" using above by (rule opened_above_active)
  show ?thesis
  proof (cases op)
    case (SET key v)
    show ?thesis
    proof (cases "Database_get db key = Some v")
      case True
      then show ?thesis using above SET by (simp add: Database_set_def)
    next
      case False
      note eq = Database_set_in_transaction [OF inv act False]
      have "db_inv (db\<lparr>transaction_handler :=
                  record_entry (transaction_handler db) key (Some v)
                    (increase_freq
                       (decrease_freq (values_freq (transactions (transaction_handler db)))
                          (Database_get db key))
                       (Some v))\<rparr>)"
        using db_inv_set [OF inv eq] .
      then show ?thesis
        using SET eq opened_above_record_entry [OF above] by simp
    qed
  next
    case (UNSET key)
    show ?thesis
    proof (cases "Database_get db key = None")
      case True
      have "Database_unset db key = Inr db"
        using act True by (rule unset_absent_in_transaction)
      then show ?thesis using above UNSET by simp
    next
      case False
      note eq = Database_unset_in_transaction [OF inv act False]
      have "db_inv (db\<lparr>transaction_handler :=
                  record_entry (transaction_handler db) key None
                    (decrease_freq (values_freq (transactions (transaction_handler db)))
                       (Database_get db key))\<rparr>)"
        using db_inv_unset [OF inv eq] .
      then show ?thesis
        using UNSET eq opened_above_record_entry [OF above] by simp
    qed
  qed (use above op in auto)
qed

lemma opened_above_run:
  assumes "opened_above db0 db" and "\<forall>op \<in> set ops. is_data_operation op"
  shows "\<exists>db'. run ops db = Inr db' \<and> opened_above db0 db'"
  using assms
proof (induction ops arbitrary: db)
  case Nil
  then show ?case by simp
next
  case (Cons op ops)
  then obtain db1 where s: "apply_operation op db = Inr db1" and a: "opened_above db0 db1"
    using opened_above_apply_operation [of db0 db op] by auto
  from Cons.IH [OF a] Cons.prems(2) obtain db' where
    "run ops db1 = Inr db'" "opened_above db0 db'" by auto
  then show ?case using s by simp
qed

lemma opened_above_rollback:
  assumes inv0: "db_inv db0" and above: "opened_above db0 db"
  shows "\<exists>db'. Database_rollback db = Inr (True, db') \<and> db_inv db'
           \<and> database db' = database db0
           \<and> transactions_opened (transaction_handler db')
               = transactions_opened (transaction_handler db0)
           \<and> (\<forall>k. history (transaction_handler db') k = history (transaction_handler db0) k)"
proof -
  let ?th = "transaction_handler db" and ?base = "transaction_handler db0"
  obtain latest where o: "transactions_opened ?th = transactions_opened ?base @ [latest]"
    and h: "\<And>k. if k \<in> set latest
                 then history ?th k \<noteq> [] \<and> butlast (history ?th k) = history ?base k
                 else history ?th k = history ?base k"
    using above unfolding opened_above_def by blast
  have hi: "handler_inv [] ?th" and di: "delta_inv (database db) ?th"
    and st: "database db = database db0"
    using above unfolding opened_above_def db_inv_def by blast+
  from TransactionHandler_rollback_inv [OF hi di o] obtain th' where
    r: "TransactionHandler_rollback ?th (database db) = Inr th'" and
    a: "handler_inv [] th'" "delta_inv (database db) th'"
       "transactions_opened th' = transactions_opened ?base" and
    hist: "\<forall>k. history th' k = (if k \<in> set latest then butlast (history ?th k) else history ?th k)"
    by blast
  have hist0: "history th' k = history ?base k" for k
    using hist h [of k] by (simp split: if_splits)
  have "Database_rollback db = Inr (True, db\<lparr>transaction_handler := th'\<rparr>)"
    using r opened_above_active [OF above] by (simp add: Database_rollback_def)
  then show ?thesis
    using a st hist0 by (simp add: db_inv_def)
qed

lemma same_view:
  assumes inv: "db_inv db" and inv': "db_inv db'"
    and st: "database db' = database db"
    and hist: "\<And>k. history (transaction_handler db') k = history (transaction_handler db) k"
  shows "Database_get db' key = Database_get db key"
    and "Database_num_equal_to db' v = Database_num_equal_to db v"
proof -
  have m: "merged (database db') (transaction_handler db') = merged (database db) (transaction_handler db)"
    by (simp add: fun_eq_iff merged_def st hist)
  show "Database_get db' key = Database_get db key"
    using inv inv' m by (simp add: db_inv_def Database_get_merged)
  show "Database_num_equal_to db' v = Database_num_equal_to db v"
    using inv inv' m st
    by (simp add: db_inv_def delta_inv_def Database_num_equal_to_def
        TransactionHandler_num_equal_to_def)
qed

text \<open>
  C2. Rollback is the inverse of its transaction: from every reachable state, for every
  sequence of get, set, unset and numEqualTo calls made between a \<open>BEGIN\<close> and its
  \<open>ROLLBACK\<close>, the whole sequence returns (no call raises), and afterwards every key
  has the value and every value the count that \<open>get\<close> and \<open>num_equal_to\<close>
  reported before the \<open>BEGIN\<close>.
\<close>

theorem rollback_restores_view:
  assumes "reachable db" and "\<forall>op \<in> set ops. is_data_operation op"
  shows "\<exists>db'. run (BEGIN # ops @ [ROLLBACK]) db = Inr db'
           \<and> (\<forall>key. Database_get db' key = Database_get db key)
           \<and> (\<forall>v. Database_num_equal_to db' v = Database_num_equal_to db v)"
proof -
  have inv: "db_inv db" using assms(1) by (rule reachable_db_inv)
  obtain db1 where r1: "run ops (Database_begin db) = Inr db1" and a1: "opened_above db db1"
    using opened_above_run [OF opened_above_begin [OF inv] assms(2)] by blast
  obtain db' where r2: "Database_rollback db1 = Inr (True, db')" and inv': "db_inv db'"
    and st: "database db' = database db"
    and hist: "\<And>k. history (transaction_handler db') k = history (transaction_handler db) k"
    using opened_above_rollback [OF inv a1] by blast
  have "run (BEGIN # ops @ [ROLLBACK]) db = Inr db'"
    using r1 r2 by (simp add: run_append)
  then show ?thesis
    using same_view [OF inv inv' st hist] by simp
qed

theorem rollback_restores_view_witness:
  "reachable example_db
   \<and> list_all is_data_operation
         [SET ''a'' ''3'', UNSET ''a'', SET ''b'' ''1'', GET ''a'', NUMEQUALTO ''1'', UNSET ''c'']
   \<and> (\<exists>db'. run (BEGIN #
                   [SET ''a'' ''3'', UNSET ''a'', SET ''b'' ''1'', GET ''a'', NUMEQUALTO ''1'',
                    UNSET ''c'']
                   @ [ROLLBACK]) example_db = Inr db'
          \<and> Database_get db' ''a'' = Database_get example_db ''a''
          \<and> Database_get db' ''b'' = Database_get example_db ''b''
          \<and> Database_num_equal_to db' ''1'' = Database_num_equal_to example_db ''1'')"
proof -
  have d: "\<forall>op \<in> set [SET ''a'' ''3'', UNSET ''a'', SET ''b'' ''1'', GET ''a'', NUMEQUALTO ''1'',
                        UNSET ''c'']. is_data_operation op"
    by simp
  have l: "list_all is_data_operation
             [SET ''a'' ''3'', UNSET ''a'', SET ''b'' ''1'', GET ''a'', NUMEQUALTO ''1'',
              UNSET ''c'']"
    by simp
  show ?thesis
    using l reachable_example_db rollback_restores_view [OF reachable_example_db d]
    by blast
qed

subsection \<open>Commit\<close>

lemma commit_data_map_of:
  assumes "distinct (map fst items)" and "commit_data items d = Inr d'"
  shows "map_of d' key =
           (case map_of items key of
              None \<Rightarrow> map_of d key
            | Some key_list \<Rightarrow> committed_value (last key_list))"
  using assms
proof (induction items arbitrary: d)
  case Nil
  then show ?case by simp
next
  case (Cons item items)
  obtain k l where i: "item = (k, l)" by (cases item)
  have dist: "distinct (map fst items)" and new: "k \<notin> fst ` set items"
    using Cons.prems(1) by (simp_all add: i)
  have none: "map_of items k = None"
    using new by (simp add: map_of_eq_None_iff)
  define d1 where "d1 = (case committed_value (last l) of
                           None \<Rightarrow> AList.delete k d | Some v \<Rightarrow> AList.update k v d)"
  have step: "commit_data items d1 = Inr d'"
    using Cons.prems(2)
    by (auto simp: i d1_def committed_value_def split: if_splits option.splits)
  have m1: "map_of d1 x = (if x = k then committed_value (last l) else map_of d x)" for x
    by (auto simp: d1_def update_conv' delete_conv' split: option.splits)
  show ?case
    using Cons.IH [OF dist step] none by (auto simp: i m1 split: option.splits)
qed

lemma commit_freq_dict_get:
  "distinct (map fst items) \<Longrightarrow>
     dict_get (commit_freq items vf) w 0 = dict_get vf w 0 + dict_get items w 0"
proof (induction items arbitrary: vf)
  case Nil
  then show ?case by (simp add: dict_get_Nil)
next
  case (Cons item items)
  obtain v n where i: "item = (v, n)" by (cases item)
  have dist: "distinct (map fst items)" and new: "v \<notin> fst ` set items"
    using Cons.prems by (simp_all add: i)
  have none: "dict_get items v 0 = 0"
    using new by (simp add: dict_get_def map_of_eq_None_iff [THEN iffD2])
  have c: "dict_get ((v, n) # items) x 0 = (if x = v then n else dict_get items x 0)" for x
    by (simp add: dict_get_def)
  show ?case
    using Cons.IH [OF dist, of "modify_freq vf (Some v) n"] none
    by (auto simp: i c dict_get_modify_freq)
qed

lemma clear_eq_init: "clear th = TransactionHandler_init"
  by (simp add: clear_def TransactionHandler_init_def)

lemma commit_applies_history:
  assumes inv: "db_inv db" and act: "is_transaction_active db"
  shows "\<exists>db'. Database_commit db = Inr (True, db')
           \<and> transaction_handler db' = TransactionHandler_init
           \<and> (\<forall>key. map_of (data (database db')) key =
                       (if history (transaction_handler db) key = []
                        then map_of (data (database db)) key
                        else committed_value (last (history (transaction_handler db) key))))
           \<and> (\<forall>v. dict_get (values_freq (database db')) v 0 =
                     dict_get (values_freq (database db)) v 0
                       + dict_get (values_freq (transactions (transaction_handler db))) v 0)
           \<and> Database_rollback db' = Inr (False, db')
           \<and> Database_commit db' = Inr (False, db')"
proof -
  let ?th = "transaction_handler db"
  have hi: "handler_inv [] ?th" using inv by (simp add: db_inv_def)
  have o: "transactions_opened ?th \<noteq> []" using act by (simp add: active_opened)
  have d1: "distinct (map fst (data (transactions ?th)))"
    and d2: "distinct (map fst (values_freq (transactions ?th)))"
    and ne: "\<And>key. map_of (data (transactions ?th)) key \<noteq> Some []"
    using hi by (simp_all add: handler_inv_def)
  obtain d' where c: "commit_data (data (transactions ?th)) (data (database db)) = Inr d'"
    and t: "TransactionHandler_commit ?th (database db) =
              Inr (clear ?th,
                   \<lparr>data = d',
                    values_freq = commit_freq (values_freq (transactions ?th))
                                    (values_freq (database db))\<rparr>)"
    using TransactionHandler_commit_returns [OF hi o] by blast
  let ?db' = "\<lparr>database = \<lparr>data = d',
                    values_freq = commit_freq (values_freq (transactions ?th))
                                    (values_freq (database db))\<rparr>,
               transaction_handler = clear ?th\<rparr>"
  have r: "Database_commit db = Inr (True, ?db')"
    using act t by (simp add: Database_commit_def)
  have m: "map_of d' key =
             (if history ?th key = [] then map_of (data (database db)) key
              else committed_value (last (history ?th key)))" for key
    using commit_data_map_of [OF d1 c, of key] ne [of key]
    by (auto simp: history_def dict_get_def split: option.splits)
  have inactive: "\<not> is_transaction_active ?db'"
    by (simp add: active_opened clear_def)
  show ?thesis
    using r m inactive
    by (simp add: clear_eq_init commit_freq_dict_get [OF d2] Database_rollback_def
        Database_commit_def)
qed

text \<open>
  C4. Commit should remove from the store the keys whose last history entry is the
  deleted marker and set every other key of the history to its last entry. The loop
  tests \<open>if value:\<close>, so a last entry that is the empty string is removed too (lemma
  \<open>commit_applies_history\<close> is what commit does in general: the store receives
  \<open>committed_value\<close> of the last entries, the frequencies are added entry by entry,
  the handler is cleared and a further rollback or commit reports no transaction).
  After \<open>begin(); set('a', '')\<close> the handler's \<open>get('a')\<close> is \<open>('', True)\<close>, no
  deleted marker, and \<open>commit()\<close> leaves the store without the key \<open>a\<close>, although it
  counts one key for the empty string. The same \<open>set\<close> with no transaction opened stores
  the key.
\<close>

theorem commit_drops_empty_value:
  "run [BEGIN, SET ''a'' ''''] Database_init =
     Inr \<lparr>database = \<lparr>data = [], values_freq = []\<rparr>,
        transaction_handler =
          \<lparr>transactions = \<lparr>data = [(''a'', [Some ''''])], values_freq = [('''', 1)]\<rparr>,
           transactions_opened = [[''a'']]\<rparr>\<rparr>
   \<and> TransactionHandler_get (transaction_handler
       \<lparr>database = \<lparr>data = [], values_freq = []\<rparr>,
        transaction_handler =
          \<lparr>transactions = \<lparr>data = [(''a'', [Some ''''])], values_freq = [('''', 1)]\<rparr>,
           transactions_opened = [[''a'']]\<rparr>\<rparr>) ''a'' = (Some '''', True)
   \<and> Database_commit
       \<lparr>database = \<lparr>data = [], values_freq = []\<rparr>,
        transaction_handler =
          \<lparr>transactions = \<lparr>data = [(''a'', [Some ''''])], values_freq = [('''', 1)]\<rparr>,
           transactions_opened = [[''a'']]\<rparr>\<rparr> =
     Inr (True,
       \<lparr>database = \<lparr>data = [], values_freq = [('''', 1)]\<rparr>,
        transaction_handler = TransactionHandler_init\<rparr>)
   \<and> map_of (data (database
       \<lparr>database = \<lparr>data = [], values_freq = [('''', 1)]\<rparr>,
        transaction_handler = TransactionHandler_init\<rparr>)) ''a'' = None
   \<and> Database_set Database_init ''a'' '''' =
     Inr \<lparr>database = \<lparr>data = [(''a'', '''')], values_freq = [('''', 1)]\<rparr>,
        transaction_handler = TransactionHandler_init\<rparr>"
  by code_simp

subsection \<open>The frequencies\<close>

lemma Database_get_all_keys:
  assumes "Database_get db key = Some v"
  shows "key \<in> set (all_keys db)"
proof -
  have "map_of (data (database db)) key \<noteq> None
          \<or> map_of (data (transactions (transaction_handler db))) key \<noteq> None"
    using assms
    by (auto simp: Database_get_def TransactionHandler_get_def Let_def dict_get_def
        split: if_splits option.splits)
  then show ?thesis
    by (auto simp: all_keys_def dest!: map_of_SomeD intro: rev_image_eqI)
qed

lemma count_equal_to_num_keys: "count_equal_to db v = num_keys (Database_get db) v"
proof -
  let ?ks = "filter (\<lambda>k. Database_get db k = Some v) (all_keys db)"
  have s: "{k. Database_get db k = Some v} = set ?ks"
    using Database_get_all_keys by auto
  have "distinct ?ks"
    by (simp add: all_keys_def)
  then have "card (set ?ks) = length ?ks"
    by (rule distinct_card)
  then show ?thesis
    unfolding count_equal_to_def num_keys_def s by simp
qed

lemma full_inv_num_equal_to:
  assumes "full_inv db"
  shows "Database_num_equal_to db v = count_equal_to db v"
proof -
  have hi: "handler_inv [] (transaction_handler db)"
    and di: "delta_inv (database db) (transaction_handler db)"
    and si: "store_inv (database db)"
    using assms by (simp_all add: full_inv_def db_inv_def)
  have "Database_get db = merged (database db) (transaction_handler db)"
    using Database_get_merged [OF hi] by (simp add: fun_eq_iff)
  then show ?thesis
    using di si
    by (simp add: count_equal_to_num_keys Database_num_equal_to_def
        TransactionHandler_num_equal_to_def delta_inv_def store_inv_def)
qed

lemma history_truthy_record_entry:
  assumes "history_truthy th" and "e \<noteq> Some []"
  shows "history_truthy (record_entry th key e vf)"
  using assms
  by (auto simp: history_truthy_def history_record_entry dest: in_set_butlastD)

lemma Database_get_inactive:
  "\<not> is_transaction_active db \<Longrightarrow> Database_get db key = map_of (data (database db)) key"
  by (simp add: Database_get_def)

lemma Database_set_direct:
  assumes "\<not> is_transaction_active db" and "Database_get db key \<noteq> Some v"
  shows "Database_set db key v =
           Inr (db\<lparr>database :=
                  \<lparr>data = AList.update key v (data (database db)),
                   values_freq =
                     increase_freq
                       (decrease_freq (values_freq (database db))
                          (map_of (data (database db)) key))
                       (Some v)\<rparr>\<rparr>)"
  using assms by (simp add: Database_set_def Database_get_inactive)

lemma store_inv_set:
  assumes "store_inv store"
  shows "store_inv
           \<lparr>data = AList.update key v (data store),
            values_freq =
              increase_freq (decrease_freq (values_freq store) (map_of (data store) key))
                (Some v)\<rparr>"
  unfolding store_inv_def
proof
  fix w
  have "num_keys ((map_of (data store))(key \<mapsto> v)) w =
          num_keys (map_of (data store)) w
            - (if map_of (data store) key = Some w then 1 else 0)
            + (if ((map_of (data store))(key \<mapsto> v)) key = Some w then 1 else 0)"
    by (rule num_keys_change [OF finite_map_of_eq]) simp
  then show "dict_get (values_freq \<lparr>data = AList.update key v (data store),
               values_freq = increase_freq (decrease_freq (values_freq store)
                 (map_of (data store) key)) (Some v)\<rparr>) w 0
           = num_keys (map_of (data \<lparr>data = AList.update key v (data store),
               values_freq = increase_freq (decrease_freq (values_freq store)
                 (map_of (data store) key)) (Some v)\<rparr>)) w"
    using assms
    by (auto simp: store_inv_def update_conv' increase_freq_def decrease_freq_def
        dict_get_modify_freq)
qed


lemma full_inv_set:
  assumes inv: "full_inv db" and r: "Database_set db key v = Inr db'" and v: "v \<noteq> []"
  shows "full_inv db'"
proof -
  have dbi: "db_inv db" and si: "store_inv (database db)"
    and ht: "history_truthy (transaction_handler db)"
    using inv by (simp_all add: full_inv_def)
  have dbi': "db_inv db'" using dbi r by (rule db_inv_set)
  show ?thesis
  proof (cases "Database_get db key = Some v")
    case True
    then show ?thesis using inv r by (simp add: Database_set_def)
  next
    case False
    show ?thesis
    proof (cases "is_transaction_active db")
      case True
      have "db' = db\<lparr>transaction_handler :=
                  record_entry (transaction_handler db) key (Some v)
                    (increase_freq
                       (decrease_freq (values_freq (transactions (transaction_handler db)))
                          (Database_get db key))
                       (Some v))\<rparr>"
        using r Database_set_in_transaction [OF dbi True False] by simp
      then show ?thesis
        using dbi' si history_truthy_record_entry [OF ht, of "Some v"] v
        by (simp add: full_inv_def)
    next
      case inactive: False
      have "db' = db\<lparr>database :=
                  \<lparr>data = AList.update key v (data (database db)),
                   values_freq =
                     increase_freq
                       (decrease_freq (values_freq (database db))
                          (map_of (data (database db)) key))
                       (Some v)\<rparr>\<rparr>"
        using r Database_set_direct [OF inactive False] by simp
      then show ?thesis
        using dbi' ht store_inv_set [OF si] by (simp add: full_inv_def)
    qed
  qed
qed

lemma full_inv_unset:
  assumes inv: "full_inv db" and r: "Database_unset db key = Inr db'"
  shows "full_inv db'"
proof -
  have dbi: "db_inv db" and si: "store_inv (database db)"
    and ht: "history_truthy (transaction_handler db)"
    using inv by (simp_all add: full_inv_def)
  have dbi': "db_inv db'" using dbi r by (rule db_inv_unset)
  have act: "is_transaction_active db"
    using r by (auto simp: Database_unset_def Let_def split: if_splits)
  show ?thesis
  proof (cases "Database_get db key = None")
    case True
    have "Database_unset db key = Inr db"
      using act True by (rule unset_absent_in_transaction)
    then show ?thesis using inv r by simp
  next
    case False
    have "db' = db\<lparr>transaction_handler :=
                  record_entry (transaction_handler db) key None
                    (decrease_freq (values_freq (transactions (transaction_handler db)))
                       (Database_get db key))\<rparr>"
      using r Database_unset_in_transaction [OF dbi act False] by simp
    then show ?thesis
      using dbi' si history_truthy_record_entry [OF ht, of None]
      by (simp add: full_inv_def)
  qed
qed

lemma full_inv_begin:
  assumes "full_inv db"
  shows "full_inv (Database_begin db)"
proof -
  have "history (transaction_handler (Database_begin db)) k = history (transaction_handler db) k"
    for k
    by (simp add: Database_begin_def TransactionHandler_begin_def history_def)
  moreover have "database (Database_begin db) = database db"
    by (simp add: Database_begin_def)
  ultimately show ?thesis
    using assms db_inv_begin [of db] by (simp add: full_inv_def history_truthy_def)
qed

lemma full_inv_rollback:
  assumes inv: "full_inv db" and r: "Database_rollback db = Inr (b, db')"
  shows "full_inv db'"
proof (cases "is_transaction_active db")
  case True
  have dbi: "db_inv db" and si: "store_inv (database db)"
    and ht: "history_truthy (transaction_handler db)"
    using inv by (simp_all add: full_inv_def)
  obtain ls latest where o: "transactions_opened (transaction_handler db) = ls @ [latest]"
    using True by (metis active_opened append_butlast_last_id)
  have hi: "handler_inv [] (transaction_handler db)"
    and di: "delta_inv (database db) (transaction_handler db)"
    using dbi by (simp_all add: db_inv_def)
  from TransactionHandler_rollback_inv [OF hi di o] obtain th' where
    t: "TransactionHandler_rollback (transaction_handler db) (database db) = Inr th'" and
    hist: "\<forall>k. history th' k
              = (if k \<in> set latest then butlast (history (transaction_handler db) k)
                 else history (transaction_handler db) k)"
    by blast
  have db': "db' = db\<lparr>transaction_handler := th'\<rparr>"
    using r True t by (simp add: Database_rollback_def)
  have "history_truthy th'"
    using ht hist by (auto simp: history_truthy_def dest: in_set_butlastD)
  then show ?thesis
    using db_inv_rollback [OF dbi r] si by (simp add: full_inv_def db')
next
  case False
  then show ?thesis using inv r by (simp add: Database_rollback_def)
qed

lemma committed_value_truthy: "e \<noteq> Some [] \<Longrightarrow> committed_value e = e"
  by (auto simp: committed_value_def split: option.splits)

lemma full_inv_commit:
  assumes inv: "full_inv db" and r: "Database_commit db = Inr (b, db')"
  shows "full_inv db'"
proof (cases "is_transaction_active db")
  case True
  let ?th = "transaction_handler db"
  have dbi: "db_inv db" and si: "store_inv (database db)" and ht: "history_truthy ?th"
    using inv by (simp_all add: full_inv_def)
  have di: "delta_inv (database db) ?th"
    using dbi by (simp add: db_inv_def)
  from commit_applies_history [OF dbi True] r have
    th': "transaction_handler db' = TransactionHandler_init" and
    m: "\<And>key. map_of (data (database db')) key =
             (if history ?th key = [] then map_of (data (database db)) key
              else committed_value (last (history ?th key)))" and
    f: "\<And>v. dict_get (values_freq (database db')) v 0 =
             dict_get (values_freq (database db)) v 0
               + dict_get (values_freq (transactions ?th)) v 0"
    by auto
  have "last (history ?th key) \<noteq> Some []" if "history ?th key \<noteq> []" for key
    using ht last_in_set [OF that] unfolding history_truthy_def by metis
  then have mm: "map_of (data (database db')) = merged (database db) ?th"
    using m by (auto simp: fun_eq_iff merged_def committed_value_truthy)
  have "store_inv (database db')"
    using si di by (simp add: store_inv_def delta_inv_def f mm)
  moreover have "history_truthy (transaction_handler db')"
    by (simp add: th' history_truthy_def history_def TransactionHandler_init_def Data_init_def
        dict_get_Nil)
  ultimately show ?thesis
    using db_inv_commit [OF dbi r] by (simp add: full_inv_def)
next
  case False
  then show ?thesis using inv r by (simp add: Database_commit_def)
qed

lemma full_inv_apply_operation:
  assumes "full_inv db" and "apply_operation op db = Inr db'" and "sets_no_empty_value op"
  shows "full_inv db'"
proof (cases op)
  case (SET key v)
  then show ?thesis using assms full_inv_set by simp
next
  case (UNSET key)
  then show ?thesis using assms full_inv_unset by simp
next
  case BEGIN
  then show ?thesis using assms full_inv_begin by auto
next
  case ROLLBACK
  then show ?thesis using assms full_inv_rollback by (auto split: sum.splits)
next
  case COMMIT
  then show ?thesis using assms full_inv_commit by (auto split: sum.splits)
qed (use assms in auto)

lemma full_inv_reordered:
  assumes "full_inv db" and "reordered db db'"
  shows "full_inv db'"
proof -
  have "history (transaction_handler db') k = history (transaction_handler db) k" for k
    using assms(2) by (simp add: history_def reordered_def)
  moreover have "database db' = database db"
    using assms(2) by (simp add: reordered_def)
  ultimately show ?thesis
    using assms db_inv_reordered [of db db'] by (simp add: full_inv_def history_truthy_def)
qed

lemma full_inv_init: "full_inv Database_init"
proof -
  have "store_inv (database Database_init)"
    by (simp add: store_inv_def Database_init_def Data_init_def dict_get_Nil num_keys_def)
  moreover have "history_truthy (transaction_handler Database_init)"
    by (simp add: history_truthy_def history_def Database_init_def TransactionHandler_init_def
        Data_init_def dict_get_Nil)
  ultimately show ?thesis
    using db_inv_init by (simp add: full_inv_def)
qed

lemma frequency_invariant_nonempty_values:
  assumes "reachable_by sets_no_empty_value db"
  shows "Database_num_equal_to db v = count_equal_to db v"
proof -
  have "full_inv db"
    using assms
  proof (induction rule: reachable_by.induct)
    case new
    show ?case by (rule full_inv_init)
  next
    case (call db op db')
    then show ?case by (simp add: full_inv_apply_operation)
  next
    case (order db db')
    then show ?case by (simp add: full_inv_reordered)
  qed
  then show ?thesis by (rule full_inv_num_equal_to)
qed

text \<open>
  From a state that satisfies the invariant every call returns, except \<open>unset\<close> with no
  transaction opened: \<open>IndexError\<close>, \<open>KeyError\<close> and \<open>TypeError\<close> are never raised.
\<close>

lemma apply_operation_returns:
  assumes inv: "db_inv db"
  shows "(\<exists>db'. apply_operation op db = Inr db')
         \<or> (\<exists>key. op = UNSET key) \<and> \<not> is_transaction_active db
             \<and> apply_operation op db = Inl AttributeError"
proof (cases op)
  case (SET key v)
  show ?thesis
  proof (cases "Database_get db key = Some v")
    case True
    then show ?thesis using SET by (simp add: Database_set_def)
  next
    case False
    then show ?thesis
      using SET Database_set_in_transaction [OF inv _ False] Database_set_direct [OF _ False]
      by (cases "is_transaction_active db") auto
  qed
next
  case (UNSET key)
  show ?thesis
  proof (cases "is_transaction_active db")
    case True
    then show ?thesis
      using UNSET Database_unset_in_transaction [OF inv True]
        unset_absent_in_transaction [OF True]
      by (cases "Database_get db key = None") auto
  next
    case False
    then show ?thesis using UNSET by (simp add: Database_unset_no_transaction)
  qed
next
  case ROLLBACK
  show ?thesis
  proof (cases "is_transaction_active db")
    case True
    then obtain ls latest where o: "transactions_opened (transaction_handler db) = ls @ [latest]"
      by (metis active_opened append_butlast_last_id)
    have hi: "handler_inv [] (transaction_handler db)"
      and di: "delta_inv (database db) (transaction_handler db)"
      using inv by (simp_all add: db_inv_def)
    have "\<exists>th'. TransactionHandler_rollback (transaction_handler db) (database db) = Inr th'"
      using TransactionHandler_rollback_inv [OF hi di o] by blast
    then show ?thesis
      using ROLLBACK True by (auto simp: Database_rollback_def)
  next
    case False
    then show ?thesis using ROLLBACK by (simp add: Database_rollback_def)
  qed
next
  case COMMIT
  show ?thesis
  proof (cases "is_transaction_active db")
    case True
    then show ?thesis
      using COMMIT commit_applies_history [OF inv True] by auto
  next
    case False
    then show ?thesis using COMMIT by (simp add: Database_commit_def)
  qed
qed simp_all

text \<open>
  C1. After every operation the count that \<open>num_equal_to\<close> returns for a value (the
  frequency of the store plus that of the handler) should be the number of keys whose
  current value it is. It is, as long as no empty string is set (lemma
  \<open>frequency_invariant_nonempty_values\<close>). After \<open>begin(); set('a', ''); commit()\<close>
  it is not: commit drops the key \<open>a\<close> but adds its frequency, so
  \<open>num_equal_to('')\<close> is 1 and no key has the value.
\<close>

theorem frequency_invariant_broken_by_commit:
  "run [BEGIN, SET ''a'' '''', COMMIT] Database_init =
     Inr \<lparr>database = \<lparr>data = [], values_freq = [('''', 1)]\<rparr>,
        transaction_handler = TransactionHandler_init\<rparr>
   \<and> Database_num_equal_to
       \<lparr>database = \<lparr>data = [], values_freq = [('''', 1)]\<rparr>,
        transaction_handler = TransactionHandler_init\<rparr> '''' = 1
   \<and> count_equal_to
       \<lparr>database = \<lparr>data = [], values_freq = [('''', 1)]\<rparr>,
        transaction_handler = TransactionHandler_init\<rparr> '''' = 0
   \<and> Database_get
       \<lparr>database = \<lparr>data = [], values_freq = [('''', 1)]\<rparr>,
        transaction_handler = TransactionHandler_init\<rparr> ''a'' = None"
  by code_simp

subsection \<open>Commit against direct execution\<close>

lemma no_zero_modify_freq: "no_zero vf \<Longrightarrow> no_zero (modify_freq vf kv n)"
  by (cases kv)
     (auto simp: no_zero_def modify_freq_def Let_def update_conv' delete_conv' dict_get_def
        split: option.splits if_splits)

lemma no_zero_commit_freq: "no_zero vf \<Longrightarrow> no_zero (commit_freq items vf)"
  by (induction items arbitrary: vf) (auto simp: no_zero_modify_freq)

lemma no_zero_map_of_eq:
  assumes "no_zero a" and "no_zero b" and "\<And>v. dict_get a v 0 = dict_get b v (0::int)"
  shows "map_of a = map_of b"
proof
  fix v
  show "map_of a v = map_of b v"
    using assms(1,2) assms(3) [of v]
    by (auto simp: no_zero_def dict_get_def split: option.splits)
qed

lemma no_zero_apply_operation:
  assumes "no_zero (values_freq (database db))" and "apply_operation op db = Inr db'"
  shows "no_zero (values_freq (database db'))"
proof (cases op)
  case (SET key v)
  then show ?thesis
    using assms
    by (auto simp: Database_set_def Let_def increase_freq_def decrease_freq_def
        no_zero_modify_freq split: if_splits sum.splits)
next
  case (UNSET key)
  then show ?thesis
    using assms by (auto simp: Database_unset_def Let_def split: if_splits sum.splits)
next
  case BEGIN
  then show ?thesis using assms by (auto simp: Database_begin_def)
next
  case ROLLBACK
  then show ?thesis
    using assms by (auto simp: Database_rollback_def split: if_splits sum.splits)
next
  case COMMIT
  then show ?thesis
    using assms
    by (auto simp: Database_commit_def TransactionHandler_commit_def no_zero_commit_freq
        split: if_splits sum.splits)
qed (use assms in auto)

lemma no_zero_run:
  "no_zero (values_freq (database db)) \<Longrightarrow> run ops db = Inr db'
     \<Longrightarrow> no_zero (values_freq (database db'))"
proof (induction ops arbitrary: db)
  case Nil
  then show ?case by simp
next
  case (Cons op ops)
  then show ?case
    by (auto split: sum.splits dest: no_zero_apply_operation)
qed

lemma reachable_no_zero: "reachable db \<Longrightarrow> no_zero (values_freq (database db))"
  unfolding reachable_def
proof (induction rule: reachable_by.induct)
  case new
  show ?case by (simp add: no_zero_def Database_init_def Data_init_def)
next
  case (call db op db')
  then show ?case by (simp add: no_zero_apply_operation)
next
  case (order db db')
  then show ?case by (simp add: reordered_def)
qed

lemma flattens_begin_first:
  assumes inv: "db_inv db" and inactive: "\<not> is_transaction_active db"
  shows "flattens db (Database_begin db)"
proof -
  have t: "transactions (transaction_handler db) = Data_init"
    using inv inactive by (simp add: db_inv_def handler_inv_def active_opened)
  have "Database_get (Database_begin db) key = Database_get db key" for key
    using t inactive
    by (simp add: Database_get_def Database_begin_def TransactionHandler_begin_def
        TransactionHandler_get_def is_transaction_active_def is_active_def get_active_size_def
        Data_init_def dict_get_Nil)
  moreover have "history_truthy (transaction_handler (Database_begin db))"
    using t
    by (simp add: history_truthy_def history_def Database_begin_def TransactionHandler_begin_def
        Data_init_def dict_get_Nil)
  moreover have "is_transaction_active (Database_begin db)"
    by (simp add: active_opened Database_begin_def TransactionHandler_begin_def)
  moreover have "dict_get (values_freq (transactions (transaction_handler (Database_begin db)))) v 0
                   = 0" for v
    using t by (simp add: Database_begin_def TransactionHandler_begin_def Data_init_def dict_get_Nil)
  moreover have "database (Database_begin db) = database db"
    by (simp add: Database_begin_def)
  ultimately show ?thesis
    using inactive db_inv_begin [OF inv] by (simp add: flattens_def)
qed

lemma flattens_begin:
  assumes "flattens d t"
  shows "flattens d (Database_begin t)"
proof -
  have act: "is_transaction_active t" using assms by (simp add: flattens_def)
  have "Database_get (Database_begin t) key = Database_get t key" for key
    using act
    by (simp add: Database_get_def Database_begin_def TransactionHandler_begin_def
        TransactionHandler_get_def is_transaction_active_def is_active_def get_active_size_def
        Let_def)
  moreover have "history_truthy (transaction_handler (Database_begin t))
                   = history_truthy (transaction_handler t)"
    by (simp add: history_truthy_def history_def Database_begin_def TransactionHandler_begin_def)
  moreover have "is_transaction_active (Database_begin t)"
    by (simp add: active_opened Database_begin_def TransactionHandler_begin_def)
  moreover have "values_freq (transactions (transaction_handler (Database_begin t)))
                   = values_freq (transactions (transaction_handler t))"
    by (simp add: Database_begin_def TransactionHandler_begin_def)
  moreover have "database (Database_begin t) = database t"
    by (simp add: Database_begin_def)
  ultimately show ?thesis
    using assms db_inv_begin [of t] by (simp add: flattens_def)
qed

lemma flattens_set:
  assumes f: "flattens d t" and v: "v \<noteq> []"
  shows "\<exists>d' t'. Database_set d key v = Inr d' \<and> Database_set t key v = Inr t'
           \<and> flattens d' t'"
proof (cases "Database_get d key = Some v")
  case True
  then have "Database_set d key v = Inr d" and "Database_set t key v = Inr t"
    using f by (simp_all add: flattens_def Database_set_def)
  then show ?thesis using f by simp
next
  case False
  have inactive: "\<not> is_transaction_active d" and act: "is_transaction_active t"
    and inv: "db_inv t" and ht: "history_truthy (transaction_handler t)"
    and g: "\<And>k. Database_get t k = Database_get d k"
    and fr: "\<And>w. dict_get (values_freq (database d)) w 0
               = dict_get (values_freq (database t)) w 0
                 + dict_get (values_freq (transactions (transaction_handler t))) w 0"
    using f by (simp_all add: flattens_def)
  have False': "Database_get t key \<noteq> Some v" using False g by simp
  let ?d' = "d\<lparr>database :=
                  \<lparr>data = AList.update key v (data (database d)),
                   values_freq =
                     increase_freq
                       (decrease_freq (values_freq (database d))
                          (map_of (data (database d)) key))
                       (Some v)\<rparr>\<rparr>"
  let ?vf = "increase_freq
               (decrease_freq (values_freq (transactions (transaction_handler t)))
                  (Database_get t key))
               (Some v)"
  let ?t' = "t\<lparr>transaction_handler := record_entry (transaction_handler t) key (Some v) ?vf\<rparr>"
  have rd: "Database_set d key v = Inr ?d'"
    using inactive False by (rule Database_set_direct)
  have rt: "Database_set t key v = Inr ?t'"
    using inv act False' by (rule Database_set_in_transaction)
  have inv': "db_inv ?t'" using inv rt by (rule db_inv_set)
  have gd: "Database_get ?d' k = (if k = key then Some v else Database_get d k)" for k
    using inactive
    by (simp add: Database_get_def is_transaction_active_def update_conv')
  have hi: "handler_inv [] (transaction_handler t)"
    using inv by (simp add: db_inv_def)
  have gt: "Database_get ?t' k = (if k = key then Some v else Database_get t k)" for k
    using inv' Database_get_merged [OF hi, of k]
    by (simp add: db_inv_def Database_get_merged merged_record_entry)
  have act': "is_transaction_active ?t'"
    by (simp add: active_opened opened_record_entry)
  have old: "map_of (data (database d)) key = Database_get t key"
    using inactive g [of key] by (simp add: Database_get_inactive)
  have fr': "dict_get (values_freq (database ?d')) w 0
               = dict_get (values_freq (database ?t')) w 0
                 + dict_get (values_freq (transactions (transaction_handler ?t'))) w 0" for w
    using fr [of w]
    by (simp add: old values_freq_record_entry increase_freq_def decrease_freq_def
        dict_get_modify_freq)
  have "flattens ?d' ?t'"
    unfolding flattens_def
    using inactive act' inv' history_truthy_record_entry [OF ht, of "Some v"] v gd gt g fr'
    by (simp add: is_transaction_active_def)
  then show ?thesis using rd rt by blast
qed

lemma flattens_apply_operation:
  assumes "flattens d t" and "plain_operation op"
  shows "\<exists>d' t'. apply_operation op d = Inr d' \<and> apply_operation op t = Inr t'
           \<and> flattens d' t'"
proof (cases op)
  case (SET key v)
  then show ?thesis using assms flattens_set [of d t v key] by simp
qed (use assms in auto)

lemma flattens_run:
  assumes "flattens d t" and "\<forall>op \<in> set ops. plain_operation op"
  shows "\<exists>d' t'. run ops d = Inr d' \<and> run ops t = Inr t' \<and> flattens d' t'"
  using assms
proof (induction ops arbitrary: d t)
  case Nil
  then show ?case by simp
next
  case (Cons op ops)
  then obtain d1 t1 where s: "apply_operation op d = Inr d1" "apply_operation op t = Inr t1"
    and f1: "flattens d1 t1"
    using flattens_apply_operation [of d t op] by auto
  from Cons.IH [OF f1] Cons.prems(2) obtain d' t' where
    "run ops d1 = Inr d'" "run ops t1 = Inr t'" "flattens d' t'" by auto
  then show ?case using s by simp
qed

lemma flattens_commit:
  assumes f: "flattens d t"
  shows "\<exists>t'. Database_commit t = Inr (True, t')
           \<and> \<not> is_transaction_active t'
           \<and> map_of (data (database t')) = map_of (data (database d))
           \<and> (\<forall>v. dict_get (values_freq (database t')) v 0
                    = dict_get (values_freq (database d)) v 0)"
proof -
  let ?th = "transaction_handler t"
  have inactive: "\<not> is_transaction_active d" and act: "is_transaction_active t"
    and inv: "db_inv t" and ht: "history_truthy ?th"
    and g: "\<And>k. Database_get t k = Database_get d k"
    and fr: "\<And>w. dict_get (values_freq (database d)) w 0
               = dict_get (values_freq (database t)) w 0
                 + dict_get (values_freq (transactions ?th)) w 0"
    using f by (simp_all add: flattens_def)
  have hi: "handler_inv [] ?th" using inv by (simp add: db_inv_def)
  from commit_applies_history [OF inv act] obtain t' where
    r: "Database_commit t = Inr (True, t')" and
    th': "transaction_handler t' = TransactionHandler_init" and
    m: "\<And>key. map_of (data (database t')) key =
             (if history ?th key = [] then map_of (data (database t)) key
              else committed_value (last (history ?th key)))" and
    fq: "\<And>v. dict_get (values_freq (database t')) v 0 =
             dict_get (values_freq (database t)) v 0
               + dict_get (values_freq (transactions ?th)) v 0"
    by blast
  have "last (history ?th key) \<noteq> Some []" if "history ?th key \<noteq> []" for key
    using ht last_in_set [OF that] unfolding history_truthy_def by metis
  then have "map_of (data (database t')) key = merged (database t) ?th key" for key
    using m [of key] by (auto simp: merged_def committed_value_truthy)
  then have "map_of (data (database t')) key = map_of (data (database d)) key" for key
    using g [of key] Database_get_merged [OF hi, of key] inactive
    by (simp add: Database_get_inactive)
  then have "map_of (data (database t')) = map_of (data (database d))"
    by (simp add: fun_eq_iff)
  moreover have "\<not> is_transaction_active t'"
    by (simp add: active_opened th' TransactionHandler_init_def)
  ultimately show ?thesis
    using r fq fr by simp
qed

lemma commit_flattens_plain_operations:
  assumes "reachable db" and "\<not> is_transaction_active db"
    and "\<forall>op \<in> set ops1. plain_operation op" and "\<forall>op \<in> set ops2. plain_operation op"
  shows "\<exists>dbt dbd. run (BEGIN # ops1 @ BEGIN # ops2 @ [COMMIT]) db = Inr dbt
           \<and> run (ops1 @ ops2) db = Inr dbd
           \<and> map_of (data (database dbt)) = map_of (data (database dbd))
           \<and> map_of (values_freq (database dbt)) = map_of (values_freq (database dbd))"
proof -
  have inv: "db_inv db" using assms(1) by (rule reachable_db_inv)
  have nz: "no_zero (values_freq (database db))" using assms(1) by (rule reachable_no_zero)
  obtain d1 t1 where r1: "run ops1 db = Inr d1" "run ops1 (Database_begin db) = Inr t1"
    and f1: "flattens d1 t1"
    using flattens_run [OF flattens_begin_first [OF inv assms(2)] assms(3)] by blast
  obtain d2 t2 where r2: "run ops2 d1 = Inr d2" "run ops2 (Database_begin t1) = Inr t2"
    and f2: "flattens d2 t2"
    using flattens_run [OF flattens_begin [OF f1] assms(4)] by blast
  obtain t3 where r3: "Database_commit t2 = Inr (True, t3)"
    and m: "map_of (data (database t3)) = map_of (data (database d2))"
    and fq: "\<And>v. dict_get (values_freq (database t3)) v 0
                 = dict_get (values_freq (database d2)) v 0"
    using flattens_commit [OF f2] by blast
  have rt: "run (BEGIN # ops1 @ BEGIN # ops2 @ [COMMIT]) db = Inr t3"
    using r1 r2 r3 by (simp add: run_append)
  have rd: "run (ops1 @ ops2) db = Inr d2"
    using r1 r2 by (simp add: run_append)
  have "map_of (values_freq (database t3)) = map_of (values_freq (database d2))"
    using no_zero_run [OF nz rt] no_zero_run [OF nz rd] fq by (rule no_zero_map_of_eq)
  then show ?thesis using rt rd m by blast
qed

text \<open>
  C3. \<open>BEGIN; ops1; BEGIN; ops2; COMMIT\<close> should leave the store that \<open>ops1; ops2\<close>
  leave with no transaction opened. It does for get, numEqualTo and set of non-empty
  values (lemma \<open>commit_flattens_plain_operations\<close>). It does not in general: with
  \<open>ops1 = set('a', '')\<close> the committed store has no key \<open>a\<close> and the direct one has;
  with \<open>ops1 = unset('a')\<close> on a store that holds \<open>a\<close>, the committed store has lost
  the key and the direct call raises \<open>AttributeError\<close>.
\<close>

theorem commit_differs_from_direct:
  "run ([BEGIN] @ [SET ''a'' ''''] @ [BEGIN] @ [] @ [COMMIT]) Database_init =
     Inr \<lparr>database = \<lparr>data = [], values_freq = [('''', 1)]\<rparr>,
        transaction_handler = TransactionHandler_init\<rparr>
   \<and> run ([SET ''a'' ''''] @ []) Database_init =
     Inr \<lparr>database = \<lparr>data = [(''a'', '''')], values_freq = [('''', 1)]\<rparr>,
        transaction_handler = TransactionHandler_init\<rparr>
   \<and> map_of (data (database
       \<lparr>database = \<lparr>data = [], values_freq = [('''', 1)]\<rparr>,
        transaction_handler = TransactionHandler_init\<rparr>)) ''a'' = None
   \<and> map_of (data (database
       \<lparr>database = \<lparr>data = [(''a'', '''')], values_freq = [('''', 1)]\<rparr>,
        transaction_handler = TransactionHandler_init\<rparr>)) ''a'' = Some ''''
   \<and> run ([BEGIN] @ [UNSET ''a''] @ [BEGIN] @ [] @ [COMMIT])
       \<lparr>database = \<lparr>data = [(''a'', ''1'')], values_freq = [(''1'', 1)]\<rparr>,
        transaction_handler = TransactionHandler_init\<rparr> =
     Inr \<lparr>database = \<lparr>data = [], values_freq = []\<rparr>,
        transaction_handler = TransactionHandler_init\<rparr>
   \<and> run ([UNSET ''a''] @ [])
       \<lparr>database = \<lparr>data = [(''a'', ''1'')], values_freq = [(''1'', 1)]\<rparr>,
        transaction_handler = TransactionHandler_init\<rparr> = Inl AttributeError"
  by code_simp

end
